theory Spec2Isabelle
  imports Complex_Main "HOL-Library.Sublist" "HOL-Library.Char_ord" "HOL-Library.List_Lexorder"
    "HOL-Library.Product_Lexorder"
begin

section \<open>Values, errors and data frames\<close>

text \<open>
  The class \<^verbatim>\<open>DataPreprocessor\<close> of \<^verbatim>\<open>data_preprocessor.py\<close> holds two Spark data frames
  and sequences calls of the engine on them. The engine is not part of the repository:
  the frame operations the class calls are modelled below, each with a comment that says
  which call it stands for.

  A cell of a frame is a value of the engine: a missing value, a string, an integer, a
  boolean, a double (a real number here: the class itself never computes with one) or a
  feature vector (its dense contents).
\<close>

datatype val = Null | Str string | IntV int | BoolV bool | Dbl real | Vec "real list"

text \<open>
  The three assertions of the source, by their message:
  \<^item> \<open>SchemaMismatch\<close>: "Train and test dataframes must have the same schema";
  \<^item> \<open>ColumnsDiffer\<close>: "Columns in train and test df should be the same";
  \<^item> \<open>NotFactors columns\<close>: "Some column in \{columns\} is not a factor".
\<close>

datatype assertion = SchemaMismatch | ColumnsDiffer | NotFactors "string list"

text \<open>
  What a call can raise: an assertion of the class, an error of the engine's analysis of a
  request (a column that does not resolve, raised when the request is made), a refused
  parameter of a pipeline stage (raised when the stage checks the schema), a failed job (raised
  when rows are computed), a pandas lookup of a missing label, or a Python comparison of
  values that do not compare.
\<close>

datatype error =
    AssertionError assertion
  | AnalysisException
  | IllegalArgumentException
  | SparkException
  | KeyError
  | TypeError

text \<open>
  A frame has a schema, the list of (column name, type name) pairs that \<^verbatim>\<open>df.dtypes\<close>
  returns, and rows. The engine is lazy: a transformation only extends the plan, and a
  failure of the computation of a row shows when an action runs the plan. So the rows
  of a frame are either the error the plan ends in or a list of rows, each a list of
  cells in schema order. Nullability and column metadata are not modelled.
\<close>

record dataframe =
  schema :: "(string \<times> string) list"
  rows :: "error + val list list"

definition dtypes :: "dataframe \<Rightarrow> (string \<times> string) list" where
  "dtypes df = schema df"

definition columns :: "dataframe \<Rightarrow> string list" where
  "columns df = map fst (schema df)"

text \<open>
  A frame is well formed when its column names are pairwise distinct and every row has one
  cell per column.
\<close>

definition wf_df :: "dataframe \<Rightarrow> bool" where
  "wf_df df \<longleftrightarrow>
     distinct (columns df) \<and>
     (case rows df of Inl e \<Rightarrow> True | Inr rs \<Rightarrow> list_all (\<lambda>r. length r = length (schema df)) rs)"

section \<open>The preprocessor\<close>

record preprocessor =
  train_df :: dataframe
  test_df :: dataframe
  train_encoded_df :: "dataframe option"
  test_encoded_df :: "dataframe option"
  one_hot_suffix :: string
  indexed_suffix :: string

text \<open>\<^verbatim>\<open>__init__\<close>: the assertion on the two schemas, then the fields.\<close>

definition init :: "dataframe \<Rightarrow> dataframe \<Rightarrow> error + preprocessor" where
  "init train test =
     (if schema train = schema test
      then Inr \<lparr>train_df = train, test_df = test, train_encoded_df = None,
                test_encoded_df = None, one_hot_suffix = ''_vec'', indexed_suffix = ''_cat''\<rparr>
      else Inl (AssertionError SchemaMismatch))"

text \<open>
  A mutating method ends with the instance as the call left it: \<open>Done\<close> when it returns,
  \<open>Raised\<close> with the exception when it raises.
\<close>

datatype outcome = Done preprocessor | Raised error preprocessor

subsection \<open>Column classification\<close>

text \<open>
  \<^verbatim>\<open>_get_cols_by_types\<close>: the names of the columns whose type name is in the list, taken
  from the train frame and from the test frame, and the assertion that the two agree.
\<close>

definition cols_of_types :: "string list \<Rightarrow> dataframe \<Rightarrow> string list" where
  "cols_of_types types df = map fst (filter (\<lambda>(col, data_type). data_type \<in> set types) (dtypes df))"

definition get_cols_by_types :: "string list \<Rightarrow> preprocessor \<Rightarrow> error + string list" where
  "get_cols_by_types types s =
     (let train_cols = cols_of_types types (train_df s);
          test_cols = cols_of_types types (test_df s)
      in if train_cols = test_cols then Inr train_cols else Inl (AssertionError ColumnsDiffer))"

definition factors :: "preprocessor \<Rightarrow> error + string list" where
  "factors s = get_cols_by_types [''string''] s"

definition numeric_columns :: "preprocessor \<Rightarrow> error + string list" where
  "numeric_columns s = get_cols_by_types [''double'', ''int''] s"

subsection \<open>Rows computed on demand\<close>

text \<open>Applying a function that may fail to every element; the first failure is the result.\<close>

fun mapE :: "('a \<Rightarrow> error + 'b) \<Rightarrow> 'a list \<Rightarrow> error + 'b list" where
  "mapE f [] = Inr []"
| "mapE f (x # xs) =
     (case f x of
        Inl e \<Rightarrow> Inl e
      | Inr y \<Rightarrow> (case mapE f xs of Inl e \<Rightarrow> Inl e | Inr ys \<Rightarrow> Inr (y # ys)))"

definition map_rows ::
  "(val list \<Rightarrow> error + val list) \<Rightarrow> error + val list list \<Rightarrow> error + val list list" where
  "map_rows f rs = (case rs of Inl e \<Rightarrow> Inl e | Inr rws \<Rightarrow> mapE f rws)"

subsection \<open>Column references\<close>

fun find_first :: "'a \<Rightarrow> 'a list \<Rightarrow> nat option" where
  "find_first c [] = None"
| "find_first c (n # ns) = (if n = c then Some 0 else map_option Suc (find_first c ns))"

text \<open>
  A column name in a request resolves to the position of the one column of that name; the
  analysis refuses a name that no column has and a name that several columns have. Names
  are compared exactly.
\<close>

definition resolve :: "dataframe \<Rightarrow> string \<Rightarrow> error + nat" where
  "resolve df c =
     (if count_list (columns df) c = 1
      then (case find_first c (columns df) of Some i \<Rightarrow> Inr i | None \<Rightarrow> Inl AnalysisException)
      else Inl AnalysisException)"

text \<open>
  Appending a column whose cell is computed from the row: the schema grows at once, the
  cells are computed with the rows.
\<close>

definition append_col ::
  "string \<Rightarrow> string \<Rightarrow> (val list \<Rightarrow> error + val) \<Rightarrow> dataframe \<Rightarrow> dataframe" where
  "append_col out ty g df =
     df\<lparr>schema := schema df @ [(out, ty)],
        rows := map_rows (\<lambda>r. case g r of Inl e \<Rightarrow> Inl e | Inr v \<Rightarrow> Inr (r @ [v])) (rows df)\<rparr>"

section \<open>Stripping\<close>

text \<open>
  Python's \<^verbatim>\<open>x.strip(chars)\<close>: the leading and the trailing characters that are in
  \<^verbatim>\<open>chars\<close> are removed.
\<close>

definition py_strip :: "string \<Rightarrow> string \<Rightarrow> string" where
  "py_strip chars x =
     rev (dropWhile (\<lambda>c. c \<in> set chars) (rev (dropWhile (\<lambda>c. c \<in> set chars) x)))"

text \<open>
  The function under \<^verbatim>\<open>func.udf\<close> in \<^verbatim>\<open>strip_columns\<close>,
  \<^verbatim>\<open>lambda x: x.strip(to_strip + " ")\<close>. A cell that is not a string (a missing value) has
  no \<^verbatim>\<open>strip\<close>: the Python worker raises and the job fails.
\<close>

definition strip_column_udf :: "string \<Rightarrow> val \<Rightarrow> error + val" where
  "strip_column_udf to_strip x =
     (case x of Str v \<Rightarrow> Inr (Str (py_strip (to_strip @ '' '') v)) | _ \<Rightarrow> Inl SparkException)"

text \<open>
  \<^verbatim>\<open>df.withColumn(column, udf(column))\<close>: the column of that name is replaced in place by
  the function of its own cells; the result type of a \<^verbatim>\<open>udf\<close> without a declared
  type is string.
\<close>

definition with_column_udf :: "string \<Rightarrow> (val \<Rightarrow> error + val) \<Rightarrow> dataframe \<Rightarrow> error + dataframe" where
  "with_column_udf column f df =
     (case resolve df column of
        Inl e \<Rightarrow> Inl e
      | Inr i \<Rightarrow>
          Inr (df\<lparr>schema := (schema df)[i := (column, ''string'')],
                  rows := map_rows (\<lambda>r. case f (r ! i) of Inl e \<Rightarrow> Inl e | Inr v \<Rightarrow> Inr (r[i := v]))
                            (rows df)\<rparr>))"

text \<open>
  \<^verbatim>\<open>_assert_are_factors\<close>: \<^verbatim>\<open>all(col in self.factors for col in columns)\<close> reads the
  property once per column and stops at the first column that is not a factor.
\<close>

fun all_in_factors :: "string list \<Rightarrow> preprocessor \<Rightarrow> error + bool" where
  "all_in_factors [] s = Inr True"
| "all_in_factors (col # cols) s =
     (case factors s of
        Inl e \<Rightarrow> Inl e
      | Inr fs \<Rightarrow> if col \<in> set fs then all_in_factors cols s else Inr False)"

definition assert_are_factors :: "string list \<Rightarrow> preprocessor \<Rightarrow> error + unit" where
  "assert_are_factors cols s =
     (case all_in_factors cols s of
        Inl e \<Rightarrow> Inl e
      | Inr ok \<Rightarrow> if ok then Inr () else Inl (AssertionError (NotFactors cols)))"

text \<open>The loop of \<^verbatim>\<open>strip_columns\<close>: the train frame, then the test frame, column by column.\<close>

fun strip_loop :: "string \<Rightarrow> string list \<Rightarrow> preprocessor \<Rightarrow> outcome" where
  "strip_loop to_strip [] s = Done s"
| "strip_loop to_strip (column # cols) s =
     (case with_column_udf column (strip_column_udf to_strip) (train_df s) of
        Inl e \<Rightarrow> Raised e s
      | Inr tr \<Rightarrow>
          (case with_column_udf column (strip_column_udf to_strip) (test_df s) of
             Inl e \<Rightarrow> Raised e (s\<lparr>train_df := tr\<rparr>)
           | Inr te \<Rightarrow> strip_loop to_strip cols (s\<lparr>train_df := tr, test_df := te\<rparr>)))"

definition strip_columns :: "string list \<Rightarrow> string \<Rightarrow> preprocessor \<Rightarrow> outcome" where
  "strip_columns cols to_strip s =
     (case assert_are_factors cols s of
        Inl e \<Rightarrow> Raised e s
      | Inr u \<Rightarrow> strip_loop to_strip cols s)"

section \<open>The stages of the engine's feature library\<close>

subsection \<open>\<^verbatim>\<open>StringIndexer\<close>\<close>

text \<open>
  The labels of a fitted indexer: the strings of the column (missing values are dropped),
  the most frequent first, strings of equal frequency in alphabetical order.
\<close>

definition strings_of :: "val list \<Rightarrow> string list" where
  "strings_of vs = concat (map (\<lambda>v. case v of Str x \<Rightarrow> [x] | _ \<Rightarrow> []) vs)"

definition si_labels :: "val list \<Rightarrow> string list" where
  "si_labels vs =
     (let strs = strings_of vs
      in sort_key (\<lambda>x. (- int (count_list strs x), x)) (remdups strs))"

text \<open>
  The schema check of the indexer and of its fitted form: the input column resolves, the
  output column is new. The class only ever passes factor columns, of type string; the
  cast of other input types to string is not modelled and such an input is refused.
\<close>

definition si_check :: "string \<Rightarrow> string \<Rightarrow> dataframe \<Rightarrow> error + nat" where
  "si_check inp out df =
     (case resolve df inp of
        Inl e \<Rightarrow> Inl e
      | Inr i \<Rightarrow>
          if snd (schema df ! i) \<noteq> ''string'' \<or> out \<in> set (columns df)
          then Inl IllegalArgumentException else Inr i)"

text \<open>Fitting is an action: it runs the plan of the frame it is given.\<close>

definition si_fit :: "string \<Rightarrow> string \<Rightarrow> dataframe \<Rightarrow> error + string list" where
  "si_fit inp out df =
     (case si_check inp out df of
        Inl e \<Rightarrow> Inl e
      | Inr i \<Rightarrow> (case rows df of Inl e \<Rightarrow> Inl e | Inr rs \<Rightarrow> Inr (si_labels (map (\<lambda>r. r ! i) rs))))"

text \<open>
  The code of a cell under a fitted indexer is the position of its string among the labels,
  as a double; with the default \<^verbatim>\<open>handleInvalid='error'\<close> a string that is no label and a
  missing value fail the job.
\<close>

definition si_code :: "string list \<Rightarrow> val \<Rightarrow> error + val" where
  "si_code labels v =
     (case v of
        Str x \<Rightarrow> (case find_first x labels of Some k \<Rightarrow> Inr (Dbl (real k)) | None \<Rightarrow> Inl SparkException)
      | _ \<Rightarrow> Inl SparkException)"

definition si_transform :: "string \<times> string \<times> string list \<Rightarrow> dataframe \<Rightarrow> error + dataframe" where
  "si_transform m df =
     (case m of (inp, out, labels) \<Rightarrow>
        (case si_check inp out df of
           Inl e \<Rightarrow> Inl e
         | Inr i \<Rightarrow> Inr (append_col out ''double'' (\<lambda>r. si_code labels (r ! i)) df)))"

subsection \<open>\<^verbatim>\<open>Pipeline\<close> of indexers\<close>

text \<open>
  \<^verbatim>\<open>Pipeline.fit\<close>: each stage is fitted on the frame as the fitted stages before it
  have transformed it; the frame is not transformed by the last stage.
\<close>

fun pipeline_fit ::
  "(string \<times> string) list \<Rightarrow> dataframe \<Rightarrow> error + (string \<times> string \<times> string list) list" where
  "pipeline_fit [] df = Inr []"
| "pipeline_fit ((inp, out) # stages) df =
     (case si_fit inp out df of
        Inl e \<Rightarrow> Inl e
      | Inr labels \<Rightarrow>
          if stages = [] then Inr [(inp, out, labels)]
          else (case si_transform (inp, out, labels) df of
                  Inl e \<Rightarrow> Inl e
                | Inr df' \<Rightarrow>
                    (case pipeline_fit stages df' of
                       Inl e \<Rightarrow> Inl e
                     | Inr ms \<Rightarrow> Inr ((inp, out, labels) # ms))))"

text \<open>\<^verbatim>\<open>PipelineModel.transform\<close>: the fitted stages in order.\<close>

fun pipeline_transform ::
  "(string \<times> string \<times> string list) list \<Rightarrow> dataframe \<Rightarrow> error + dataframe" where
  "pipeline_transform [] df = Inr df"
| "pipeline_transform (m # ms) df =
     (case si_transform m df of Inl e \<Rightarrow> Inl e | Inr df' \<Rightarrow> pipeline_transform ms df')"

subsection \<open>\<^verbatim>\<open>OneHotEncoder\<close>\<close>

definition is_numeric_type :: "string \<Rightarrow> bool" where
  "is_numeric_type ty \<longleftrightarrow>
     ty \<in> set [''tinyint'', ''smallint'', ''int'', ''bigint'', ''float'', ''double'']
     \<or> take 7 ty = ''decimal''"

definition to_double :: "val \<Rightarrow> real option" where
  "to_double v =
     (case v of
        IntV n \<Rightarrow> Some (real_of_int n)
      | Dbl x \<Rightarrow> Some x
      | BoolV b \<Rightarrow> Some (if b then 1 else 0)
      | _ \<Rightarrow> None)"

text \<open>
  The schema check of the encoder and of its fitted form: as many outputs as inputs, every
  input a numeric column, every output new, and no output named twice.
\<close>

definition ohe_check :: "string list \<Rightarrow> string list \<Rightarrow> dataframe \<Rightarrow> error + nat list" where
  "ohe_check inps outs df =
     (if length inps \<noteq> length outs \<or> \<not> distinct outs \<or> (\<exists>out \<in> set outs. out \<in> set (columns df))
      then Inl IllegalArgumentException
      else mapE (\<lambda>inp. case resolve df inp of
                          Inl e \<Rightarrow> Inl e
                        | Inr i \<Rightarrow> if is_numeric_type (snd (schema df ! i)) then Inr i
                                   else Inl IllegalArgumentException) inps)"

text \<open>
  A cell of an input column must be a category index: a whole number from 0 to the largest
  32-bit integer.
\<close>

definition category_index :: "val \<Rightarrow> error + nat" where
  "category_index v =
     (case to_double v of
        None \<Rightarrow> Inl SparkException
      | Some x \<Rightarrow>
          if 0 \<le> x \<and> x \<le> 2147483647 \<and> x = of_int \<lfloor>x\<rfloor> then Inr (nat \<lfloor>x\<rfloor>)
          else Inl SparkException)"

text \<open>
  Fitting the encoder finds the number of categories of every input column on the frame it
  is given: one more than the largest index of the column. (The engine reads the number
  from the nominal attribute of the column when the indexer that made the column left
  one; the labels of an indexer are the strings of the frame it was fitted on, so the
  number read and the number counted on that frame agree unless the frame is empty.)
\<close>

definition category_size :: "val list \<Rightarrow> error + nat" where
  "category_size vs =
     (case mapE category_index vs of Inl e \<Rightarrow> Inl e | Inr ks \<Rightarrow> Inr (fold max ks 0 + 1))"

definition ohe_fit :: "string list \<Rightarrow> string list \<Rightarrow> dataframe \<Rightarrow> error + nat list" where
  "ohe_fit inps outs df =
     (case ohe_check inps outs df of
        Inl e \<Rightarrow> Inl e
      | Inr is \<Rightarrow>
          mapE (\<lambda>i. case rows df of
                      Inl e \<Rightarrow> Inl e
                    | Inr rs \<Rightarrow> category_size (map (\<lambda>r. r ! i) rs)) is)"

text \<open>
  The encoded cell, with the defaults \<^verbatim>\<open>dropLast=True\<close> and \<^verbatim>\<open>handleInvalid='error'\<close>:
  a vector one shorter than the number of categories, with a one at the index (the last
  category is the zero vector); an index outside the fitted categories fails the job.
\<close>

definition one_hot :: "nat \<Rightarrow> real \<Rightarrow> real list" where
  "one_hot n x = map (\<lambda>k. if real k \<le> x \<and> x < real k + 1 then 1 else 0) [0..<n - 1]"

definition ohe_cell :: "nat \<Rightarrow> val \<Rightarrow> error + val" where
  "ohe_cell n v =
     (case to_double v of
        None \<Rightarrow> Inl SparkException
      | Some x \<Rightarrow> if 0 \<le> x \<and> x < real n then Inr (Vec (one_hot n x)) else Inl SparkException)"

fun ohe_append :: "(nat \<times> string \<times> nat) list \<Rightarrow> dataframe \<Rightarrow> dataframe" where
  "ohe_append [] df = df"
| "ohe_append ((i, out, n) # rest) df =
     ohe_append rest (append_col out ''vector'' (\<lambda>r. ohe_cell n (r ! i)) df)"

definition ohe_transform ::
  "string list \<Rightarrow> string list \<Rightarrow> nat list \<Rightarrow> dataframe \<Rightarrow> error + dataframe" where
  "ohe_transform inps outs sizes df =
     (case ohe_check inps outs df of
        Inl e \<Rightarrow> Inl e
      | Inr is \<Rightarrow> Inr (ohe_append (zip is (zip outs sizes)) df))"

subsection \<open>\<^verbatim>\<open>VectorAssembler\<close>\<close>

definition va_check :: "string list \<Rightarrow> string \<Rightarrow> dataframe \<Rightarrow> error + nat list" where
  "va_check inps out df =
     (case mapE (\<lambda>inp. case resolve df inp of
                          Inl e \<Rightarrow> Inl e
                        | Inr i \<Rightarrow>
                            if is_numeric_type (snd (schema df ! i))
                               \<or> snd (schema df ! i) \<in> set [''boolean'', ''vector'']
                            then Inr i else Inl IllegalArgumentException) inps of
        Inl e \<Rightarrow> Inl e
      | Inr is \<Rightarrow> if out \<in> set (columns df) then Inl IllegalArgumentException else Inr is)"

text \<open>
  The assembled cell: the listed cells in the given order, numbers as doubles and vectors
  by their contents; a missing value fails the job (\<^verbatim>\<open>handleInvalid='error'\<close>).
\<close>

definition va_part :: "val \<Rightarrow> error + real list" where
  "va_part v =
     (case v of
        Vec xs \<Rightarrow> Inr xs
      | _ \<Rightarrow> (case to_double v of None \<Rightarrow> Inl SparkException | Some x \<Rightarrow> Inr [x]))"

definition va_cell :: "nat list \<Rightarrow> val list \<Rightarrow> error + val" where
  "va_cell is r =
     (case mapE (\<lambda>i. va_part (r ! i)) is of Inl e \<Rightarrow> Inl e | Inr parts \<Rightarrow> Inr (Vec (concat parts)))"

definition va_transform :: "string list \<Rightarrow> string \<Rightarrow> dataframe \<Rightarrow> error + dataframe" where
  "va_transform inps out df =
     (case va_check inps out df of
        Inl e \<Rightarrow> Inl e
      | Inr is \<Rightarrow> Inr (append_col out ''vector'' (va_cell is) df))"

subsection \<open>Estimators and transformers\<close>

text \<open>
  The objects \<^verbatim>\<open>_fit_and_transform\<close> is called with, and what \<^verbatim>\<open>fit\<close> returns for them:
  a pipeline of indexers (input and output column of each stage) and its fitted form, the
  encoder and its fitted form, and the assembler, which is a transformer and has no
  \<^verbatim>\<open>fit\<close>.
\<close>

datatype stage =
    Pipeline "(string \<times> string) list"
  | PipelineModel "(string \<times> string \<times> string list) list"
  | OneHotEncoder "string list" "string list"
  | OneHotEncoderModel "string list" "string list" "nat list"
  | VectorAssembler "string list" string

fun has_fit :: "stage \<Rightarrow> bool" where
  "has_fit (Pipeline stages) = True"
| "has_fit (OneHotEncoder inps outs) = True"
| "has_fit (PipelineModel ms) = False"
| "has_fit (OneHotEncoderModel inps outs sizes) = False"
| "has_fit (VectorAssembler inps out) = False"

fun fit :: "stage \<Rightarrow> dataframe \<Rightarrow> error + stage" where
  "fit (Pipeline stages) df =
     (case pipeline_fit stages df of Inl e \<Rightarrow> Inl e | Inr ms \<Rightarrow> Inr (PipelineModel ms))"
| "fit (OneHotEncoder inps outs) df =
     (case ohe_fit inps outs df of Inl e \<Rightarrow> Inl e | Inr sizes \<Rightarrow> Inr (OneHotEncoderModel inps outs sizes))"
| "fit m df = Inr m"

fun transform :: "stage \<Rightarrow> dataframe \<Rightarrow> error + dataframe" where
  "transform (PipelineModel ms) df = pipeline_transform ms df"
| "transform (OneHotEncoderModel inps outs sizes) df = ohe_transform inps outs sizes df"
| "transform (VectorAssembler inps out) df = va_transform inps out df"
| "transform m df = Inl IllegalArgumentException"

text \<open>\<^verbatim>\<open>_fit_and_transform\<close>: fit on the train frame if the object has a \<^verbatim>\<open>fit\<close>, then
  transform the train frame, then the test frame.\<close>

definition fit_and_transform :: "stage \<Rightarrow> preprocessor \<Rightarrow> outcome" where
  "fit_and_transform model s =
     (case (if has_fit model then fit model (train_df s) else Inr model) of
        Inl e \<Rightarrow> Raised e s
      | Inr m \<Rightarrow>
          (case transform m (train_df s) of
             Inl e \<Rightarrow> Raised e s
           | Inr tr \<Rightarrow>
               (case transform m (test_df s) of
                  Inl e \<Rightarrow> Raised e (s\<lparr>train_df := tr\<rparr>)
                | Inr te \<Rightarrow> Done (s\<lparr>train_df := tr, test_df := te\<rparr>))))"

section \<open>The encoding methods\<close>

definition string_index :: "string list \<Rightarrow> string \<Rightarrow> preprocessor \<Rightarrow> outcome" where
  "string_index cols sfx s =
     (case assert_are_factors cols s of
        Inl e \<Rightarrow> Raised e s
      | Inr u \<Rightarrow> fit_and_transform (Pipeline (map (\<lambda>factor. (factor, factor @ sfx)) cols)) s)"

definition one_hot_encode :: "string list \<Rightarrow> string \<Rightarrow> preprocessor \<Rightarrow> outcome" where
  "one_hot_encode cols sfx s =
     fit_and_transform (OneHotEncoder cols (map (\<lambda>col. col @ sfx) cols)) s"

definition assemble_features :: "string list \<Rightarrow> string \<Rightarrow> preprocessor \<Rightarrow> outcome" where
  "assemble_features cols out_name s = fit_and_transform (VectorAssembler cols out_name) s"

subsection \<open>\<^verbatim>\<open>prepare_to_model\<close>\<close>

definition one_hot_encode_columns :: "string \<Rightarrow> preprocessor \<Rightarrow> error + string list" where
  "one_hot_encode_columns target_col s =
     (case factors s of
        Inl e \<Rightarrow> Inl e
      | Inr fs \<Rightarrow> Inr (map (\<lambda>fac. fac @ indexed_suffix s) (filter (\<lambda>fac. fac \<noteq> target_col) fs)))"

text \<open>The two lists \<^verbatim>\<open>_columns_to_assemble\<close> concatenates, under the names of its variables.\<close>

definition numeric_to_assemble :: "string \<Rightarrow> preprocessor \<Rightarrow> error + string list" where
  "numeric_to_assemble target_col s =
     (case numeric_columns s of
        Inl e \<Rightarrow> Inl e
      | Inr ns \<Rightarrow> Inr (filter (\<lambda>col. col \<noteq> target_col \<and> \<not> suffix (indexed_suffix s) col) ns))"

definition one_hot_encoded :: "preprocessor \<Rightarrow> string list" where
  "one_hot_encoded s =
     map fst (filter (\<lambda>(col, data_type). sublist (indexed_suffix s @ one_hot_suffix s) col)
                (dtypes (train_df s)))"

definition columns_to_assemble :: "string \<Rightarrow> preprocessor \<Rightarrow> error + string list" where
  "columns_to_assemble target_col s =
     (case numeric_to_assemble target_col s of
        Inl e \<Rightarrow> Inl e
      | Inr numeric \<Rightarrow> Inr (numeric @ one_hot_encoded s))"

text \<open>
  \<^verbatim>\<open>df.select(target_col, 'features')\<close>, and \<^verbatim>\<open>withColumnRenamed\<close>, which renames every
  column of the old name and does nothing when there is none.
\<close>

definition select2 :: "string \<Rightarrow> string \<Rightarrow> dataframe \<Rightarrow> error + dataframe" where
  "select2 a b df =
     (case resolve df a of
        Inl e \<Rightarrow> Inl e
      | Inr i \<Rightarrow>
          (case resolve df b of
             Inl e \<Rightarrow> Inl e
           | Inr j \<Rightarrow>
               Inr \<lparr>schema = [schema df ! i, schema df ! j],
                    rows = map_rows (\<lambda>r. Inr [r ! i, r ! j]) (rows df)\<rparr>))"

definition with_column_renamed :: "string \<Rightarrow> string \<Rightarrow> dataframe \<Rightarrow> dataframe" where
  "with_column_renamed existing new df =
     df\<lparr>schema := map (\<lambda>(name, ty). (if name = existing then new else name, ty)) (schema df)\<rparr>"

definition select_to_model :: "dataframe \<Rightarrow> string \<Rightarrow> error + dataframe" where
  "select_to_model df target_col =
     (case select2 target_col ''features'' df of
        Inl e \<Rightarrow> Inl e
      | Inr d \<Rightarrow> Inr (with_column_renamed target_col ''label'' d))"

text \<open>The last four lines of \<^verbatim>\<open>prepare_to_model\<close>.\<close>

definition select_encoded :: "string \<Rightarrow> preprocessor \<Rightarrow> outcome" where
  "select_encoded target_col s =
     (case factors s of
        Inl e \<Rightarrow> Raised e s
      | Inr fs \<Rightarrow>
          (let target = (if target_col \<in> set fs then target_col @ indexed_suffix s else target_col)
           in case select_to_model (train_df s) target of
                Inl e \<Rightarrow> Raised e s
              | Inr tr \<Rightarrow>
                  (case select_to_model (test_df s) target of
                     Inl e \<Rightarrow> Raised e (s\<lparr>train_encoded_df := Some tr\<rparr>)
                   | Inr te \<Rightarrow> Done (s\<lparr>train_encoded_df := Some tr, test_encoded_df := Some te\<rparr>))))"

text \<open>
  \<^verbatim>\<open>prepare_to_model\<close>: the steps in the order of the source; the arguments of each call
  are computed from the instance as the step before left it, and an exception ends the
  call.
\<close>

definition prepare_to_model :: "string \<Rightarrow> string \<Rightarrow> preprocessor \<Rightarrow> outcome" where
  "prepare_to_model target_col to_strip s =
     (case factors s of
        Inl e \<Rightarrow> Raised e s
      | Inr fs \<Rightarrow>
     (case strip_columns fs to_strip s of
        Raised e s' \<Rightarrow> Raised e s'
      | Done s1 \<Rightarrow>
     (case factors s1 of
        Inl e \<Rightarrow> Raised e s1
      | Inr fs1 \<Rightarrow>
     (case string_index fs1 (indexed_suffix s1) s1 of
        Raised e s' \<Rightarrow> Raised e s'
      | Done s2 \<Rightarrow>
     (case one_hot_encode_columns target_col s2 of
        Inl e \<Rightarrow> Raised e s2
      | Inr cs \<Rightarrow>
     (case one_hot_encode cs (one_hot_suffix s2) s2 of
        Raised e s' \<Rightarrow> Raised e s'
      | Done s3 \<Rightarrow>
     (case columns_to_assemble target_col s3 of
        Inl e \<Rightarrow> Raised e s3
      | Inr as \<Rightarrow>
     (case assemble_features as ''features'' s3 of
        Raised e s' \<Rightarrow> Raised e s'
      | Done s4 \<Rightarrow> select_encoded target_col s4))))))))"

section \<open>Exploration\<close>

subsection \<open>The frame requests of \<^verbatim>\<open>_get_join_count\<close>\<close>

text \<open>
  \<^verbatim>\<open>df.groupBy(column).count()\<close>: one row per distinct cell of the column, with the number
  of rows that have it, in a column named \<^verbatim>\<open>count\<close>. The order of the groups is the
  engine's; no statement below depends on it.
\<close>

definition group_by_count :: "string \<Rightarrow> dataframe \<Rightarrow> error + dataframe" where
  "group_by_count column df =
     (case resolve df column of
        Inl e \<Rightarrow> Inl e
      | Inr i \<Rightarrow>
          Inr \<lparr>schema = [schema df ! i, (''count'', ''bigint'')],
               rows = (case rows df of
                         Inl e \<Rightarrow> Inl e
                       | Inr rs \<Rightarrow>
                           (let vs = map (\<lambda>r. r ! i) rs
                            in Inr (map (\<lambda>v. [v, IntV (int (count_list vs v))]) (remdups vs))))\<rparr>)"

text \<open>\<^verbatim>\<open>df.orderBy(column, ascending=False)\<close> on a column of integers.\<close>

definition order_by_desc :: "string \<Rightarrow> dataframe \<Rightarrow> error + dataframe" where
  "order_by_desc column df =
     (case resolve df column of
        Inl e \<Rightarrow> Inl e
      | Inr i \<Rightarrow>
          Inr (df\<lparr>rows := (case rows df of
                             Inl e \<Rightarrow> Inl e
                           | Inr rs \<Rightarrow>
                               Inr (sort_key (\<lambda>r. case r ! i of IntV n \<Rightarrow> - n | _ \<Rightarrow> 0) rs))\<rparr>))"

text \<open>
  \<^verbatim>\<open>df.withColumn(name, func.col(source))\<close>: a copy of the source column, in the place of
  every column of that name when there is one, appended otherwise.
\<close>

definition with_column_col :: "string \<Rightarrow> string \<Rightarrow> dataframe \<Rightarrow> error + dataframe" where
  "with_column_col name source df =
     (case resolve df source of
        Inl e \<Rightarrow> Inl e
      | Inr j \<Rightarrow>
          if name \<in> set (columns df)
          then Inr (df\<lparr>schema := map (\<lambda>(n, ty). if n = name then (name, snd (schema df ! j)) else (n, ty))
                                   (schema df),
                       rows := map_rows (\<lambda>r. Inr (map (\<lambda>(n, v). if n = name then r ! j else v)
                                                      (zip (columns df) r))) (rows df)\<rparr>)
          else Inr (append_col name (snd (schema df ! j)) (\<lambda>r. Inr (r ! j)) df))"

definition drop_nth :: "nat \<Rightarrow> 'a list \<Rightarrow> 'a list" where
  "drop_nth i xs = take i xs @ drop (Suc i) xs"

text \<open>
  \<^verbatim>\<open>left.join(right, [column], how="outer")\<close>: the key column once, then the other columns
  of the left frame, then those of the right frame. Two rows match when their keys are
  equal and not missing; a row without a match is kept, with missing values on the other
  side. Keys of different column types are not converted to a common type here.
\<close>

definition key_match :: "val \<Rightarrow> val \<Rightarrow> bool" where
  "key_match a b \<longleftrightarrow> a \<noteq> Null \<and> a = b"

definition join_rows ::
  "nat \<Rightarrow> nat \<Rightarrow> nat \<Rightarrow> nat \<Rightarrow> val list list \<Rightarrow> val list list \<Rightarrow> val list list" where
  "join_rows i j nl nr ls rs =
     concat (map (\<lambda>lr. let ms = filter (\<lambda>rr. key_match (lr ! i) (rr ! j)) rs
                       in if ms = [] then [lr ! i # drop_nth i lr @ replicate (nr - 1) Null]
                          else map (\<lambda>rr. lr ! i # drop_nth i lr @ drop_nth j rr) ms) ls)
     @ map (\<lambda>rr. rr ! j # replicate (nl - 1) Null @ drop_nth j rr)
         (filter (\<lambda>rr. \<not> list_ex (\<lambda>lr. key_match (lr ! i) (rr ! j)) ls) rs)"

definition join_outer :: "string \<Rightarrow> dataframe \<Rightarrow> dataframe \<Rightarrow> error + dataframe" where
  "join_outer column l r =
     (case resolve l column of
        Inl e \<Rightarrow> Inl e
      | Inr i \<Rightarrow>
          (case resolve r column of
             Inl e \<Rightarrow> Inl e
           | Inr j \<Rightarrow>
               Inr \<lparr>schema = schema l ! i # drop_nth i (schema l) @ drop_nth j (schema r),
                    rows = (case rows l of
                              Inl e \<Rightarrow> Inl e
                            | Inr ls \<Rightarrow>
                                (case rows r of
                                   Inl e \<Rightarrow> Inl e
                                 | Inr rs \<Rightarrow>
                                     Inr (join_rows i j (length (schema l)) (length (schema r)) ls rs)))\<rparr>))"

definition select :: "string list \<Rightarrow> dataframe \<Rightarrow> error + dataframe" where
  "select cols df =
     (case mapE (resolve df) cols of
        Inl e \<Rightarrow> Inl e
      | Inr is \<Rightarrow>
          Inr \<lparr>schema = map (\<lambda>i. schema df ! i) is,
               rows = map_rows (\<lambda>r. Inr (map (\<lambda>i. r ! i) is)) (rows df)\<rparr>)"

text \<open>The counts of one frame: \<^verbatim>\<open>groupBy\<close>, \<^verbatim>\<open>count\<close>, \<^verbatim>\<open>orderBy\<close>, \<^verbatim>\<open>withColumn\<close>.\<close>

definition value_counts :: "string \<Rightarrow> string \<Rightarrow> dataframe \<Rightarrow> error + dataframe" where
  "value_counts column name df =
     (case group_by_count column df of
        Inl e \<Rightarrow> Inl e
      | Inr g \<Rightarrow>
          (case order_by_desc ''count'' g of
             Inl e \<Rightarrow> Inl e
           | Inr d \<Rightarrow> with_column_col name ''count'' d))"

definition get_join_count :: "string \<Rightarrow> preprocessor \<Rightarrow> error + dataframe" where
  "get_join_count column s =
     (case value_counts column ''in_test'' (test_df s) of
        Inl e \<Rightarrow> Inl e
      | Inr test_c \<Rightarrow>
          (case value_counts column ''in_train'' (train_df s) of
             Inl e \<Rightarrow> Inl e
           | Inr train_c \<Rightarrow>
               (case join_outer column train_c test_c of
                  Inl e \<Rightarrow> Inl e
                | Inr j \<Rightarrow> select [column, ''in_train'', ''in_test''] j)))"

subsection \<open>Local tables\<close>

text \<open>
  A pandas table: the row labels, the column labels and the rows. \<^verbatim>\<open>toPandas\<close> is an
  action: it runs the plan; a missing count arrives as not-a-number, written \<open>Null\<close>.
\<close>

record pframe =
  pindex :: "val list"
  pcolumns :: "string list"
  pdata :: "val list list"

definition to_pandas :: "dataframe \<Rightarrow> error + pframe" where
  "to_pandas df =
     (case rows df of
        Inl e \<Rightarrow> Inl e
      | Inr rs \<Rightarrow>
          Inr \<lparr>pindex = map (\<lambda>k. IntV (int k)) [0..<length rs], pcolumns = columns df, pdata = rs\<rparr>)"

definition set_index :: "string \<Rightarrow> pframe \<Rightarrow> error + pframe" where
  "set_index column pf =
     (if count_list (pcolumns pf) column = 1
      then (case find_first column (pcolumns pf) of
              None \<Rightarrow> Inl KeyError
            | Some i \<Rightarrow>
                Inr \<lparr>pindex = map (\<lambda>r. r ! i) (pdata pf),
                     pcolumns = drop_nth i (pcolumns pf),
                     pdata = map (drop_nth i) (pdata pf)\<rparr>)
      else Inl KeyError)"

text \<open>
  \<^verbatim>\<open>(pandas_df[col] > 0).astype(int)\<close> on one cell: a number is compared with zero,
  not-a-number is not greater than zero, a string does not compare with a number.
\<close>

definition binarize_cell :: "val \<Rightarrow> error + val" where
  "binarize_cell v =
     (case v of
        Null \<Rightarrow> Inr (IntV 0)
      | IntV n \<Rightarrow> Inr (IntV (if n > 0 then 1 else 0))
      | Dbl x \<Rightarrow> Inr (IntV (if x > 0 then 1 else 0))
      | BoolV b \<Rightarrow> Inr (IntV (if b then 1 else 0))
      | _ \<Rightarrow> Inl TypeError)"

definition binarize_column :: "string \<Rightarrow> pframe \<Rightarrow> error + pframe" where
  "binarize_column col pf =
     (if count_list (pcolumns pf) col = 1
      then (case find_first col (pcolumns pf) of
              None \<Rightarrow> Inl KeyError
            | Some i \<Rightarrow>
                (case mapE (\<lambda>r. case binarize_cell (r ! i) of
                                  Inl e \<Rightarrow> Inl e
                                | Inr v \<Rightarrow> Inr (r[i := v])) (pdata pf) of
                   Inl e \<Rightarrow> Inl e
                 | Inr d \<Rightarrow> Inr (pf\<lparr>pdata := d\<rparr>)))
      else Inl KeyError)"

fun binarize_pandas :: "pframe \<Rightarrow> string list \<Rightarrow> error + pframe" where
  "binarize_pandas pf [] = Inr pf"
| "binarize_pandas pf (col # cols) =
     (case binarize_column col pf of Inl e \<Rightarrow> Inl e | Inr pf' \<Rightarrow> binarize_pandas pf' cols)"

subsection \<open>\<^verbatim>\<open>explore_factors\<close>\<close>

definition factor_table :: "string \<Rightarrow> preprocessor \<Rightarrow> error + pframe" where
  "factor_table column s =
     (case get_join_count column s of
        Inl e \<Rightarrow> Inl e
      | Inr join_count \<Rightarrow>
          (case to_pandas join_count of
             Inl e \<Rightarrow> Inl e
           | Inr pandas_df \<Rightarrow>
               (case set_index column pandas_df of
                  Inl e \<Rightarrow> Inl e
                | Inr indexed \<Rightarrow> binarize_pandas indexed [''in_test'', ''in_train''])))"

fun explore_loop ::
  "string list \<Rightarrow> preprocessor \<Rightarrow> (string \<rightharpoonup> pframe) \<Rightarrow> error + (string \<rightharpoonup> pframe)" where
  "explore_loop [] s factor_exploration = Inr factor_exploration"
| "explore_loop (column # cols) s factor_exploration =
     (case factor_table column s of
        Inl e \<Rightarrow> Inl e
      | Inr tbl \<Rightarrow> explore_loop cols s (factor_exploration(column \<mapsto> tbl)))"

definition explore_factors :: "preprocessor \<Rightarrow> error + (string \<rightharpoonup> pframe)" where
  "explore_factors s =
     (case factors s of Inl e \<Rightarrow> Inl e | Inr fs \<Rightarrow> explore_loop fs s Map.empty)"

subsection \<open>\<^verbatim>\<open>explore_numeric_columns\<close>\<close>






section \<open>Notions used in the statements\<close>

text \<open>The two frames of an instance have the same schema.\<close>

definition same_schema :: "preprocessor \<Rightarrow> bool" where
  "same_schema s \<longleftrightarrow> schema (train_df s) = schema (test_df s)"

text \<open>The instance after a call, whether the call returned or raised.\<close>

fun state_of :: "outcome \<Rightarrow> preprocessor" where
  "state_of (Done s) = s"
| "state_of (Raised e s) = s"

text \<open>
  What stripping does to a cell, to a row and to a frame. A row is stripped on the columns
  \<open>cols\<close> when every cell of such a column is a string and has been replaced by its
  stripped form, and every other cell is as it was. A frame is stripped when its schema is
  unchanged and its rows, when they can be computed, are the stripped rows of the frame
  before, in order; they can be computed exactly when the rows before can and every cell
  of a listed column is a string.
\<close>

definition strip_val :: "string \<Rightarrow> val \<Rightarrow> val" where
  "strip_val to_strip v = (case v of Str x \<Rightarrow> Str (py_strip (to_strip @ '' '') x) | _ \<Rightarrow> v)"

definition stripped_row :: "string \<Rightarrow> string list \<Rightarrow> string list \<Rightarrow> val list \<Rightarrow> val list \<Rightarrow> bool" where
  "stripped_row to_strip cols names r r' \<longleftrightarrow>
     length r' = length r \<and>
     (\<forall>j < length r.
        if names ! j \<in> set cols
        then (\<exists>x. r ! j = Str x) \<and> r' ! j = strip_val to_strip (r ! j)
        else r' ! j = r ! j)"

definition stripped_frame :: "string \<Rightarrow> string list \<Rightarrow> dataframe \<Rightarrow> dataframe \<Rightarrow> bool" where
  "stripped_frame to_strip cols df df' \<longleftrightarrow>
     schema df' = schema df \<and>
     (\<forall>rs'. rows df' = Inr rs' \<longleftrightarrow>
        (\<exists>rs. rows df = Inr rs \<and> list_all2 (stripped_row to_strip cols (columns df)) rs rs'))"

text \<open>
  The invariant of an instance built from well-formed frames: the two schemas agree and
  both frames are well formed.
\<close>

definition consistent :: "preprocessor \<Rightarrow> bool" where
  "consistent s \<longleftrightarrow> same_schema s \<and> wf_df (train_df s) \<and> wf_df (test_df s)"


text \<open>An instance for the concrete checks: one factor, two numeric columns, one column of
  another type.\<close>

definition ex_train :: dataframe where
  "ex_train =
     \<lparr>schema = [(''color'', ''string''), (''size'', ''int''), (''price'', ''double''), (''views'', ''bigint'')],
      rows = Inr [[Str '' red '', IntV 1, Dbl 10, IntV 7],
                  [Str ''blue'', IntV 2, Dbl 20, IntV 8],
                  [Str ''red'', IntV 3, Dbl 30, IntV 9]]\<rparr>"

definition ex_test :: dataframe where
  "ex_test =
     \<lparr>schema = [(''color'', ''string''), (''size'', ''int''), (''price'', ''double''), (''views'', ''bigint'')],
      rows = Inr [[Str ''blue '', IntV 5, Dbl 50, IntV 1],
                  [Str '' red'', IntV 2, Dbl 20, IntV 2]]\<rparr>"

definition ex_state :: preprocessor where
  "ex_state =
     \<lparr>train_df = ex_train, test_df = ex_test, train_encoded_df = None, test_encoded_df = None,
      one_hot_suffix = ''_vec'', indexed_suffix = ''_cat''\<rparr>"

text \<open>
  The cells of a column, by its name: the list the claims call the values of the column.
\<close>

definition column_of :: "string \<Rightarrow> dataframe \<Rightarrow> error + val list" where
  "column_of c df =
     (case resolve df c of
        Inl e \<Rightarrow> Inl e
      | Inr i \<Rightarrow> (case rows df of Inl e \<Rightarrow> Inl e | Inr rs \<Rightarrow> Inr (map (\<lambda>r. r ! i) rs)))"

text \<open>
  A frame extends another when it has the columns of the other first, and its rows, when
  they can be computed, are the rows of the other in order, each with cells appended.
\<close>

definition extends :: "dataframe \<Rightarrow> dataframe \<Rightarrow> bool" where
  "extends df d \<longleftrightarrow>
     prefix (schema df) (schema d) \<and>
     (\<forall>rs'. rows d = Inr rs' \<longrightarrow> (\<exists>rs. rows df = Inr rs \<and> list_all2 prefix rs rs'))"

text \<open>
  Two instances with the same test frame and the same schema, whose train frames differ in
  their rows only: an index column with three categories in the one and two in the other.
\<close>

definition ohe_a :: preprocessor where
  "ohe_a =
     \<lparr>train_df = \<lparr>schema = [(''idx'', ''double'')], rows = Inr [[Dbl 0], [Dbl 1], [Dbl 2]]\<rparr>,
      test_df = \<lparr>schema = [(''idx'', ''double'')], rows = Inr [[Dbl 0], [Dbl 1]]\<rparr>,
      train_encoded_df = None, test_encoded_df = None,
      one_hot_suffix = ''_vec'', indexed_suffix = ''_cat''\<rparr>"

definition ohe_b :: preprocessor where
  "ohe_b =
     \<lparr>train_df = \<lparr>schema = [(''idx'', ''double'')], rows = Inr [[Dbl 0], [Dbl 1]]\<rparr>,
      test_df = \<lparr>schema = [(''idx'', ''double'')], rows = Inr [[Dbl 0], [Dbl 1]]\<rparr>,
      train_encoded_df = None, test_encoded_df = None,
      one_hot_suffix = ''_vec'', indexed_suffix = ''_cat''\<rparr>"

text \<open>
  An instance whose frames have an integer target and a column of type bigint whose name
  contains the two suffixes.
\<close>

definition named_state :: preprocessor where
  "named_state =
     \<lparr>train_df = \<lparr>schema = [(''t'', ''int''), (''z_cat_vec'', ''bigint'')],
                   rows = Inr [[IntV 1, IntV 5], [IntV 0, IntV 6]]\<rparr>,
      test_df = \<lparr>schema = [(''t'', ''int''), (''z_cat_vec'', ''bigint'')],
                   rows = Inr [[IntV 1, IntV 7]]\<rparr>,
      train_encoded_df = None, test_encoded_df = None,
      one_hot_suffix = ''_vec'', indexed_suffix = ''_cat''\<rparr>"


text \<open>
  The states an execution of \<^verbatim>\<open>prepare_to_model\<close> goes through: the instance at the
  call, and the instance after each of the four mutating steps (strip, index, encode,
  assemble) that completes, in order.
\<close>

definition steps_done :: "string \<Rightarrow> string \<Rightarrow> preprocessor \<Rightarrow> preprocessor list" where
  "steps_done target_col to_strip s =
     s # (case factors s of
            Inl e \<Rightarrow> []
          | Inr fs \<Rightarrow>
     (case strip_columns fs to_strip s of
        Raised e s' \<Rightarrow> []
      | Done s1 \<Rightarrow>
     s1 # (case factors s1 of
             Inl e \<Rightarrow> []
           | Inr fs1 \<Rightarrow>
     (case string_index fs1 (indexed_suffix s1) s1 of
        Raised e s' \<Rightarrow> []
      | Done s2 \<Rightarrow>
     s2 # (case one_hot_encode_columns target_col s2 of
             Inl e \<Rightarrow> []
           | Inr cs \<Rightarrow>
     (case one_hot_encode cs (one_hot_suffix s2) s2 of
        Raised e s' \<Rightarrow> []
      | Done s3 \<Rightarrow>
     s3 # (case columns_to_assemble target_col s3 of
             Inl e \<Rightarrow> []
           | Inr as \<Rightarrow>
     (case assemble_features as ''features'' s3 of
        Raised e s' \<Rightarrow> []
      | Done s4 \<Rightarrow> [s4]))))))))"

text \<open>
  What a call of \<^verbatim>\<open>prepare_to_model\<close> that returns has done to one of the two frames:
  \<open>df\<close> is the frame at the call, \<open>d1\<close> the stripped frame, \<open>d2\<close> the indexed frame, \<open>d4\<close>
  the final frame and \<open>e\<close> the encoded frame; \<open>ms\<close> are the indexers, fitted on the stripped
  train frame \<open>tr1\<close>.
\<close>

definition prepared ::
  "string \<Rightarrow> string \<Rightarrow> string list \<Rightarrow> string \<Rightarrow> dataframe \<Rightarrow> (string \<times> string \<times> string list) list \<Rightarrow>
   dataframe \<Rightarrow> dataframe \<Rightarrow> dataframe \<Rightarrow> dataframe \<Rightarrow> dataframe \<Rightarrow> bool" where
  "prepared t ts fs sfx tr1 ms df d1 d2 d4 e \<longleftrightarrow>
     wf_df df \<and> wf_df d1 \<and> wf_df d2 \<and> wf_df d4
     \<and> stripped_frame ts fs df d1
     \<and> pipeline_fit (map (\<lambda>factor. (factor, factor @ sfx)) fs) tr1 = Inr ms
     \<and> pipeline_transform ms d1 = Inr d2
     \<and> extends d2 d4
     \<and> (if t \<in> set fs then t @ sfx else t) \<in> set (columns d2)
     \<and> (if t \<in> set fs then t @ sfx else t) \<noteq> ''features''
     \<and> select_to_model d4 (if t \<in> set fs then t @ sfx else t) = Inr e"

text \<open>
  The example of the specification for \<^verbatim>\<open>explore_factors\<close>: the colours red, blue, red in
  the train frame and blue, green in the test frame.
\<close>

definition color_state :: preprocessor where
  "color_state =
     \<lparr>train_df = \<lparr>schema = [(''color'', ''string''), (''size'', ''int'')],
                   rows = Inr [[Str ''red'', IntV 1], [Str ''blue'', IntV 2], [Str ''red'', IntV 3]]\<rparr>,
      test_df = \<lparr>schema = [(''color'', ''string''), (''size'', ''int'')],
                  rows = Inr [[Str ''blue'', IntV 5], [Str ''green'', IntV 2]]\<rparr>,
      train_encoded_df = None, test_encoded_df = None,
      one_hot_suffix = ''_vec'', indexed_suffix = ''_cat''\<rparr>"

text \<open>An instance whose frames have a factor named \<^verbatim>\<open>count\<close>.\<close>

definition count_state :: preprocessor where
  "count_state =
     \<lparr>train_df = \<lparr>schema = [(''count'', ''string'')], rows = Inr [[Str ''few''], [Str ''many'']]\<rparr>,
      test_df = \<lparr>schema = [(''count'', ''string'')], rows = Inr [[Str ''few'']]\<rparr>,
      train_encoded_df = None, test_encoded_df = None,
      one_hot_suffix = ''_vec'', indexed_suffix = ''_cat''\<rparr>"

section \<open>Properties\<close>

subsection \<open>Construction\<close>

lemma init_ok:
  "schema train = schema test \<Longrightarrow>
   \<exists>s. init train test = Inr s \<and> train_df s = train \<and> test_df s = test"
  by (simp add: init_def)

text \<open>
  C5: when the schemas of the two frames differ, in a name, a type or the order,
  construction raises the assertion, and no instance exists on which a method could be
  called.
\<close>

theorem init_schema_mismatch:
  "schema train \<noteq> schema test \<Longrightarrow> init train test = Inl (AssertionError SchemaMismatch)"
  by (simp add: init_def)

theorem init_schema_mismatch_witness:
  "init \<lparr>schema = [(''color'', ''string''), (''size'', ''int'')], rows = Inr []\<rparr>
        \<lparr>schema = [(''size'', ''int''), (''color'', ''string'')], rows = Inr []\<rparr>
   = Inl (AssertionError SchemaMismatch)"
  using init_schema_mismatch
    [of "\<lparr>schema = [(''color'', ''string''), (''size'', ''int'')], rows = Inr []\<rparr>"
        "\<lparr>schema = [(''size'', ''int''), (''color'', ''string'')], rows = Inr []\<rparr>"]
  by simp

subsection \<open>Column references and rows\<close>

lemma find_first_None_iff: "find_first c ns = None \<longleftrightarrow> c \<notin> set ns"
  by (induction ns) auto

lemma find_first_SomeD:
  "find_first c ns = Some i \<Longrightarrow> i < length ns \<and> ns ! i = c"
  by (induction ns arbitrary: i) (auto split: if_splits)

lemma count_list_0_iff': "count_list ns c = 0 \<longleftrightarrow> c \<notin> set ns"
  by (induction ns) auto

lemma count_list_distinct: "distinct ns \<Longrightarrow> c \<in> set ns \<Longrightarrow> count_list ns c = 1"
  by (induction ns) (auto simp: count_list_0_iff')

lemma resolve_cong:
  assumes "schema df = schema df'"
  shows "resolve df c = resolve df' c"
  unfolding resolve_def columns_def assms by (rule refl)

lemma resolve_InrD:
  "resolve df c = Inr i \<Longrightarrow> i < length (schema df) \<and> fst (schema df ! i) = c \<and> c \<in> set (columns df)"
  unfolding resolve_def columns_def
  by (auto split: if_splits option.splits dest!: find_first_SomeD simp: find_first_None_iff)

lemma resolve_distinct:
  "distinct (columns df) \<Longrightarrow> c \<in> set (columns df) \<Longrightarrow> \<exists>i. resolve df c = Inr i"
  unfolding resolve_def
  by (auto simp: count_list_distinct find_first_None_iff split: option.splits)

lemma resolve_unique:
  "distinct (columns df) \<Longrightarrow> i < length (schema df) \<Longrightarrow> fst (schema df ! i) = c \<Longrightarrow> resolve df c = Inr i"
proof -
  assume d: "distinct (columns df)" and i: "i < length (schema df)" and c: "fst (schema df ! i) = c"
  then have "c \<in> set (columns df)" by (auto simp: columns_def in_set_conv_nth intro!: exI[of _ i])
  with d obtain j where j: "resolve df c = Inr j" using resolve_distinct by blast
  from resolve_InrD[OF j] have "j < length (columns df)" "columns df ! j = c" by (auto simp: columns_def)
  moreover have "i < length (columns df)" "columns df ! i = c" using i c by (auto simp: columns_def)
  ultimately have "i = j" using d by (metis nth_eq_iff_index_eq)
  with j show ?thesis by simp
qed

lemma mapE_Inr_iff: "mapE f xs = Inr ys \<longleftrightarrow> list_all2 (\<lambda>x y. f x = Inr y) xs ys"
proof (induction xs arbitrary: ys)
  case Nil
  then show ?case by auto
next
  case (Cons x xs)
  show ?case
    by (cases ys) (auto simp: Cons.IH[symmetric] split: sum.splits)
qed

lemma mapE_cong: "(\<And>x. x \<in> set xs \<Longrightarrow> f x = g x) \<Longrightarrow> mapE f xs = mapE g xs"
  by (induction xs) (auto split: sum.splits)

lemma mapE_length: "mapE f xs = Inr ys \<Longrightarrow> length ys = length xs"
  by (auto simp: mapE_Inr_iff dest: list_all2_lengthD)

lemma schema_append_col [simp]: "schema (append_col out ty g df) = schema df @ [(out, ty)]"
  by (simp add: append_col_def)

lemma columns_append_col [simp]: "columns (append_col out ty g df) = columns df @ [out]"
  by (simp add: columns_def)

lemma rows_append_col:
  "rows (append_col out ty g df) =
     map_rows (\<lambda>r. case g r of Inl e \<Rightarrow> Inl e | Inr v \<Rightarrow> Inr (r @ [v])) (rows df)"
  by (simp add: append_col_def)

lemma rows_append_col_Inr:
  "rows (append_col out ty g df) = Inr rs' \<longleftrightarrow>
     (\<exists>rs. rows df = Inr rs \<and> list_all2 (\<lambda>r r'. \<exists>v. g r = Inr v \<and> r' = r @ [v]) rs rs')"
proof -
  have *: "(case g r of Inl e \<Rightarrow> Inl e | Inr v \<Rightarrow> Inr (r @ [v])) = Inr r' \<longleftrightarrow>
           (\<exists>v. g r = Inr v \<and> r' = r @ [v])" for r r'
    by (cases "g r") auto
  show ?thesis
    by (cases "rows df") (simp_all add: rows_append_col map_rows_def mapE_Inr_iff *)
qed

lemma wf_append_col:
  assumes "wf_df df" and "out \<notin> set (columns df)"
  shows "wf_df (append_col out ty g df)"
proof -
  have "list_all (\<lambda>r. length r = length (schema (append_col out ty g df))) rs'"
    if rs': "rows (append_col out ty g df) = Inr rs'" for rs'
  proof -
    from rs' obtain rs where rs: "rows df = Inr rs"
      and l: "list_all2 (\<lambda>r r'. \<exists>v. g r = Inr v \<and> r' = r @ [v]) rs rs'"
      by (auto simp: rows_append_col_Inr)
    from assms(1) rs have "list_all (\<lambda>r. length r = length (schema df)) rs"
      by (simp add: wf_df_def)
    with l show ?thesis
      by (auto simp: list_all_length list_all2_conv_all_nth)
  qed
  moreover have "distinct (columns (append_col out ty g df))"
    using assms by (simp add: wf_df_def)
  ultimately show ?thesis
    by (cases "rows (append_col out ty g df)") (simp_all add: wf_df_def)
qed

subsection \<open>Checks read the schema only\<close>

lemma si_check_cong:
  assumes "schema df = schema df'"
  shows "si_check inp out df = si_check inp out df'"
  unfolding si_check_def resolve_def columns_def assms by (rule refl)

lemma ohe_check_cong:
  assumes "schema df = schema df'"
  shows "ohe_check inps outs df = ohe_check inps outs df'"
  unfolding ohe_check_def resolve_def columns_def assms by (rule refl)

lemma va_check_cong:
  assumes "schema df = schema df'"
  shows "va_check inps out df = va_check inps out df'"
  unfolding va_check_def resolve_def columns_def assms by (rule refl)

lemma si_transform_schema:
  assumes "schema df = schema df'"
  shows "map_sum id schema (si_transform m df) = map_sum id schema (si_transform m df')"
proof -
  obtain inp out labels where m: "m = (inp, out, labels)" by (cases m)
  have "si_check inp out df = si_check inp out df'" using assms by (rule si_check_cong)
  then show ?thesis
    by (cases "si_check inp out df'") (simp_all add: si_transform_def m assms)
qed

lemma pipeline_transform_schema:
  "schema df = schema df' \<Longrightarrow>
   map_sum id schema (pipeline_transform ms df) = map_sum id schema (pipeline_transform ms df')"
proof (induction ms arbitrary: df df')
  case Nil
  then show ?case by simp
next
  case (Cons m ms)
  note eq = si_transform_schema[OF Cons.prems, of m]
  show ?case
  proof (cases "si_transform m df")
    case (Inl e)
    with eq have "si_transform m df' = Inl e" by (cases "si_transform m df'") auto
    with Inl show ?thesis by simp
  next
    case (Inr d)
    with eq obtain d' where d': "si_transform m df' = Inr d'" and "schema d = schema d'"
      by (cases "si_transform m df'") auto
    from Cons.IH[OF this(2)] Inr d' show ?thesis by simp
  qed
qed

lemma schema_ohe_append:
  "schema (ohe_append ts df) = schema df @ map (\<lambda>(i, out, n). (out, ''vector'')) ts"
  by (induction ts arbitrary: df) auto

lemma ohe_transform_schema:
  assumes "schema df = schema df'"
  shows "map_sum id schema (ohe_transform inps outs sizes df) =
         map_sum id schema (ohe_transform inps outs sizes df')"
proof -
  have "ohe_check inps outs df = ohe_check inps outs df'" using assms by (rule ohe_check_cong)
  then show ?thesis
    by (cases "ohe_check inps outs df'") (simp_all add: ohe_transform_def schema_ohe_append assms)
qed

lemma va_transform_schema:
  assumes "schema df = schema df'"
  shows "map_sum id schema (va_transform inps out df) = map_sum id schema (va_transform inps out df')"
proof -
  have "va_check inps out df = va_check inps out df'" using assms by (rule va_check_cong)
  then show ?thesis
    by (cases "va_check inps out df'") (simp_all add: va_transform_def assms)
qed

lemma transform_schema:
  assumes "schema df = schema df'"
  shows "map_sum id schema (transform m df) = map_sum id schema (transform m df')"
proof (cases m)
  case (PipelineModel ms)
  then show ?thesis using pipeline_transform_schema[OF assms, of ms] by simp
next
  case (OneHotEncoderModel inps outs sizes)
  then show ?thesis using ohe_transform_schema[OF assms, of inps outs sizes] by simp
next
  case (VectorAssembler inps out)
  then show ?thesis using va_transform_schema[OF assms, of inps out] by simp
qed simp_all

lemma fit_and_transform_Raised:
  assumes "same_schema s" and "fit_and_transform model s = Raised e s'"
  shows "s' = s"
proof -
  define m where "m = (if has_fit model then fit model (train_df s) else Inr model)"
  show ?thesis
  proof (cases m)
    case (Inl e')
    then show ?thesis using assms(2) by (simp add: fit_and_transform_def m_def)
  next
    case (Inr fm)
    from assms(1) have eq: "map_sum id schema (transform fm (train_df s)) = map_sum id schema (transform fm (test_df s))"
      unfolding same_schema_def by (rule transform_schema)
    show ?thesis
    proof (cases "transform fm (train_df s)")
      case (Inl e')
      then show ?thesis using assms(2) Inr by (simp add: fit_and_transform_def m_def)
    next
      case tr: (Inr tr)
      with eq obtain te where "transform fm (test_df s) = Inr te"
        by (cases "transform fm (test_df s)") auto
      then show ?thesis using assms(2) Inr tr by (simp add: fit_and_transform_def m_def)
    qed
  qed
qed

lemma fit_and_transform_same_schema:
  assumes "same_schema s" and "fit_and_transform model s = Done s'"
  shows "same_schema s'"
proof -
  from assms(2) obtain fm tr te where
    tr: "transform fm (train_df s) = Inr tr" and te: "transform fm (test_df s) = Inr te"
    and s': "s' = s\<lparr>train_df := tr, test_df := te\<rparr>"
    by (auto simp: fit_and_transform_def split: sum.splits)
  from assms(1) have "map_sum id schema (transform fm (train_df s)) = map_sum id schema (transform fm (test_df s))"
    unfolding same_schema_def by (rule transform_schema)
  with tr te s' show ?thesis by (simp add: same_schema_def)
qed

lemma wf_distinct: "wf_df df \<Longrightarrow> distinct (columns df)"
  by (simp add: wf_df_def)

lemma si_check_InrD:
  "si_check inp out df = Inr i \<Longrightarrow>
   resolve df inp = Inr i \<and> snd (schema df ! i) = ''string'' \<and> out \<notin> set (columns df)"
  by (auto simp: si_check_def split: sum.splits if_splits)

lemma si_transform_wf:
  assumes "wf_df df" and "si_transform m df = Inr d"
  shows "wf_df d"
proof -
  obtain inp out labels where m: "m = (inp, out, labels)" by (cases m)
  from assms(2) obtain i where i: "si_check inp out df = Inr i"
    and d: "d = append_col out ''double'' (\<lambda>r. si_code labels (r ! i)) df"
    by (auto simp: si_transform_def m split: sum.splits)
  from si_check_InrD[OF i] have "out \<notin> set (columns df)" by simp
  with assms(1) show ?thesis unfolding d by (rule wf_append_col)
qed

lemma pipeline_transform_wf:
  "wf_df df \<Longrightarrow> pipeline_transform ms df = Inr d \<Longrightarrow> wf_df d"
proof (induction ms arbitrary: df)
  case Nil
  then show ?case by simp
next
  case (Cons m ms)
  from Cons.prems(2) obtain d1 where d1: "si_transform m df = Inr d1"
    and d: "pipeline_transform ms d1 = Inr d"
    by (auto split: sum.splits)
  from si_transform_wf[OF Cons.prems(1) d1] d show ?case by (rule Cons.IH)
qed

lemma columns_ohe_append: "columns (ohe_append ts df) = columns df @ map (\<lambda>(i, out, n). out) ts"
  by (induction ts arbitrary: df) auto

lemma ohe_append_wf:
  "wf_df df \<Longrightarrow> distinct (map (\<lambda>(i, out, n). out) ts) \<Longrightarrow>
   \<forall>(i, out, n) \<in> set ts. out \<notin> set (columns df) \<Longrightarrow> wf_df (ohe_append ts df)"
proof (induction ts arbitrary: df)
  case Nil
  then show ?case by simp
next
  case (Cons t ts)
  obtain i out n where t: "t = (i, out, n)" by (cases t)
  let ?d = "append_col out ''vector'' (\<lambda>r. ohe_cell n (r ! i)) df"
  from Cons.prems have "wf_df ?d" by (auto simp: t intro: wf_append_col)
  moreover from Cons.prems have "distinct (map (\<lambda>(i, out, n). out) ts)" by simp
  moreover from Cons.prems have "\<forall>(i, out', n) \<in> set ts. out' \<notin> set (columns ?d)"
    by (fastforce simp: t image_iff)
  ultimately have "wf_df (ohe_append ts ?d)" by (rule Cons.IH)
  then show ?case by (simp add: t)
qed

lemma ohe_check_InrD:
  "ohe_check inps outs df = Inr is \<Longrightarrow>
   length inps = length outs \<and> distinct outs \<and> set outs \<inter> set (columns df) = {} \<and>
   length is = length inps"
  by (auto simp: ohe_check_def split: if_splits dest: mapE_length)

lemma zip3_outs:
  "map (\<lambda>(i, out, n). out) (zip is (zip outs sizes)) = take (min (length is) (length sizes)) outs"
proof (induction outs arbitrary: "is" sizes)
  case Nil
  then show ?case by simp
next
  case (Cons out outs)
  show ?case by (cases "is"; cases sizes) (simp_all add: Cons.IH)
qed

lemma ohe_transform_wf:
  assumes "wf_df df" and "ohe_transform inps outs sizes df = Inr d"
  shows "wf_df d"
proof -
  from assms(2) obtain "is" where c: "ohe_check inps outs df = Inr is"
    and d: "d = ohe_append (zip is (zip outs sizes)) df"
    by (auto simp: ohe_transform_def split: sum.splits)
  note D = ohe_check_InrD[OF c]
  let ?ts = "zip is (zip outs sizes)"
  have m: "map (\<lambda>(i, out, n). out) ?ts = take (min (length is) (length sizes)) outs"
    by (rule zip3_outs)
  have "distinct (map (\<lambda>(i, out, n). out) ?ts)"
    unfolding m using D by simp
  moreover have "\<forall>(i, out, n) \<in> set ?ts. out \<notin> set (columns df)"
  proof -
    have "set (map (\<lambda>(i, out, n). out) ?ts) \<subseteq> set outs"
      unfolding m by (rule set_take_subset)
    with D show ?thesis by fastforce
  qed
  ultimately show ?thesis unfolding d using assms(1) by (intro ohe_append_wf)
qed

lemma va_transform_wf:
  assumes "wf_df df" and "va_transform inps out df = Inr d"
  shows "wf_df d"
proof -
  from assms(2) obtain "is" where c: "va_check inps out df = Inr is"
    and d: "d = append_col out ''vector'' (va_cell is) df"
    by (auto simp: va_transform_def split: sum.splits)
  from c have "out \<notin> set (columns df)"
    by (auto simp: va_check_def split: sum.splits if_splits)
  with assms(1) show ?thesis unfolding d by (rule wf_append_col)
qed

lemma transform_wf: "wf_df df \<Longrightarrow> transform m df = Inr d \<Longrightarrow> wf_df d"
  by (cases m) (auto intro: pipeline_transform_wf ohe_transform_wf va_transform_wf)

lemma py_strip_idem: "py_strip cs (py_strip cs x) = py_strip cs x"
proof -
  define P where "P = (\<lambda>c. c \<in> set cs)"
  define y where "y = dropWhile P x"
  define z where "z = dropWhile P (rev y)"
  have t: "py_strip cs x = rev z" by (simp add: py_strip_def P_def y_def z_def)
  have 1: "dropWhile P (rev z) = rev z"
  proof (cases "z = []")
    case True
    then show ?thesis by simp
  next
    case False
    then have "\<not> P (hd z)" unfolding z_def by (rule hd_dropWhile)
    moreover have "hd z \<in> set (rev y)"
      using False unfolding z_def by (metis hd_in_set set_dropWhileD)
    ultimately have "last z = last (rev y)" unfolding z_def by (metis dropWhile_last)
    moreover have "rev y \<noteq> []" using False z_def by auto
    then have "y \<noteq> []" by simp
    then have "\<not> P (hd y)" unfolding y_def by (rule hd_dropWhile)
    moreover have "last (rev y) = hd y" using \<open>y \<noteq> []\<close> by (simp add: last_rev)
    moreover have "hd (rev z) = last z" using False by (simp add: hd_rev)
    ultimately show ?thesis by (simp add: dropWhile_eq_self_iff)
  qed
  have 2: "dropWhile P z = z" by (simp add: z_def)
  have "py_strip cs (rev z) = rev (dropWhile P (rev (dropWhile P (rev z))))"
    by (simp add: py_strip_def P_def)
  also have "\<dots> = rev z" by (simp add: 1 2)
  finally show ?thesis by (simp add: t)
qed

lemma strip_val_idem: "strip_val ts (strip_val ts v) = strip_val ts v"
  by (cases v) (simp_all add: strip_val_def py_strip_idem)

lemma strip_val_Str: "(\<exists>x. v = Str x) \<Longrightarrow> \<exists>x. strip_val ts v = Str x"
  by (auto simp: strip_val_def)

lemma stripped_row_Nil: "stripped_row ts [] names = (=)"
  by (intro ext) (auto simp: stripped_row_def intro: nth_equalityI)

lemma stripped_row_comp:
  "(stripped_row ts [c] names OO stripped_row ts cs names) = stripped_row ts (c # cs) names"
proof (intro ext iffI)
  fix r r2
  assume "(stripped_row ts [c] names OO stripped_row ts cs names) r r2"
  then obtain r1 where a: "stripped_row ts [c] names r r1" and b: "stripped_row ts cs names r1 r2"
    by auto
  show "stripped_row ts (c # cs) names r r2"
    unfolding stripped_row_def
  proof (intro conjI allI impI)
    show "length r2 = length r" using a b by (simp add: stripped_row_def)
  next
    fix j assume j: "j < length r"
    then have j1: "j < length r1" using a by (simp add: stripped_row_def)
    from a j have aj: "if names ! j = c then (\<exists>x. r ! j = Str x) \<and> r1 ! j = strip_val ts (r ! j)
                       else r1 ! j = r ! j"
      by (simp add: stripped_row_def)
    from b j1 have bj: "if names ! j \<in> set cs then (\<exists>x. r1 ! j = Str x) \<and> r2 ! j = strip_val ts (r1 ! j)
                       else r2 ! j = r1 ! j"
      by (simp add: stripped_row_def)
    show "if names ! j \<in> set (c # cs) then (\<exists>x. r ! j = Str x) \<and> r2 ! j = strip_val ts (r ! j)
          else r2 ! j = r ! j"
      using aj bj by (auto simp: strip_val_idem split: if_splits)
  qed
next
  fix r r2
  assume c: "stripped_row ts (c # cs) names r r2"
  define r1 where "r1 = map (\<lambda>j. if names ! j = c then strip_val ts (r ! j) else r ! j) [0..<length r]"
  have l1: "length r1 = length r" by (simp add: r1_def)
  have n1: "r1 ! j = (if names ! j = c then strip_val ts (r ! j) else r ! j)" if "j < length r" for j
    using that by (simp add: r1_def)
  have a: "stripped_row ts [c] names r r1"
    unfolding stripped_row_def using c by (auto simp: l1 n1 stripped_row_def)
  have b: "stripped_row ts cs names r1 r2"
    unfolding stripped_row_def
  proof (intro conjI allI impI)
    show "length r2 = length r1" using c by (simp add: l1 stripped_row_def)
  next
    fix j assume "j < length r1"
    then have j: "j < length r" by (simp add: l1)
    from c j have cj: "if names ! j \<in> set (c # cs) then (\<exists>x. r ! j = Str x) \<and> r2 ! j = strip_val ts (r ! j)
                       else r2 ! j = r ! j"
      by (simp add: stripped_row_def)
    show "if names ! j \<in> set cs then (\<exists>x. r1 ! j = Str x) \<and> r2 ! j = strip_val ts (r1 ! j)
          else r2 ! j = r1 ! j"
      using cj by (auto simp: n1[OF j] strip_val_idem strip_val_Str split: if_splits)
  qed
  from a b show "(stripped_row ts [c] names OO stripped_row ts cs names) r r2" by auto
qed

lemma stripped_frame_Nil: "stripped_frame ts [] df df"
  by (auto simp: stripped_frame_def stripped_row_Nil list.rel_eq)

lemma stripped_frame_comp:
  assumes "stripped_frame ts [c] df d1" and "stripped_frame ts cs d1 d2"
  shows "stripped_frame ts (c # cs) df d2"
proof -
  from assms have s1: "schema d1 = schema df" and s2: "schema d2 = schema d1"
    by (simp_all add: stripped_frame_def)
  then have n: "columns d1 = columns df" by (simp add: columns_def)
  have "rows d2 = Inr rs' \<longleftrightarrow>
        (\<exists>rs. rows df = Inr rs \<and> list_all2 (stripped_row ts (c # cs) (columns df)) rs rs')" for rs'
  proof -
    have "rows d2 = Inr rs' \<longleftrightarrow>
          (\<exists>rs1. rows d1 = Inr rs1 \<and> list_all2 (stripped_row ts cs (columns df)) rs1 rs')"
      using assms(2) by (simp add: stripped_frame_def n)
    also have "\<dots> \<longleftrightarrow> (\<exists>rs1 rs. rows df = Inr rs \<and> list_all2 (stripped_row ts [c] (columns df)) rs rs1
                          \<and> list_all2 (stripped_row ts cs (columns df)) rs1 rs')"
      using assms(1) by (auto simp: stripped_frame_def)
    also have "\<dots> \<longleftrightarrow> (\<exists>rs. rows df = Inr rs \<and>
        (list_all2 (stripped_row ts [c] (columns df)) OO list_all2 (stripped_row ts cs (columns df))) rs rs')"
      by auto
    also have "\<dots> \<longleftrightarrow> (\<exists>rs. rows df = Inr rs \<and> list_all2 (stripped_row ts (c # cs) (columns df)) rs rs')"
      by (simp only: list.rel_compp[symmetric] stripped_row_comp)
    finally show ?thesis .
  qed
  then show ?thesis using s1 s2 by (simp add: stripped_frame_def)
qed

lemma stripped_frame_wf:
  assumes "wf_df df" and "stripped_frame ts cols df d"
  shows "wf_df d"
proof -
  from assms(2) have s: "schema d = schema df" by (simp add: stripped_frame_def)
  have "list_all (\<lambda>r. length r = length (schema d)) rs'" if "rows d = Inr rs'" for rs'
  proof -
    from that assms(2) obtain rs where rs: "rows df = Inr rs"
      and l: "list_all2 (stripped_row ts cols (columns df)) rs rs'"
      by (auto simp: stripped_frame_def)
    from assms(1) rs have "list_all (\<lambda>r. length r = length (schema df)) rs" by (simp add: wf_df_def)
    with l show ?thesis
      by (auto simp: s list_all_length list_all2_conv_all_nth stripped_row_def)
  qed
  moreover have "distinct (columns d)" using assms(1) s by (simp add: wf_df_def columns_def)
  ultimately show ?thesis by (cases "rows d") (simp_all add: wf_df_def)
qed

lemma strip_step_row:
  assumes "length r = length names" and "i < length names" and "names ! i = c" and "distinct names"
  shows "(case strip_column_udf ts (r ! i) of Inl e \<Rightarrow> Inl e | Inr v \<Rightarrow> Inr (r[i := v])) = Inr r'
         \<longleftrightarrow> stripped_row ts [c] names r r'"
proof
  assume "(case strip_column_udf ts (r ! i) of Inl e \<Rightarrow> Inl e | Inr v \<Rightarrow> Inr (r[i := v])) = Inr r'"
  then obtain x where x: "r ! i = Str x" and r': "r' = r[i := Str (py_strip (ts @ '' '') x)]"
    by (auto simp: strip_column_udf_def split: val.splits sum.splits)
  have "names ! j = c \<longleftrightarrow> j = i" if "j < length r" for j
    using that assms by (auto simp: nth_eq_iff_index_eq)
  then show "stripped_row ts [c] names r r'"
    using assms(1,2) x by (auto simp: stripped_row_def r' strip_val_def)
next
  assume s: "stripped_row ts [c] names r r'"
  from assms have "i < length r" by simp
  with s have "if names ! i \<in> set [c] then (\<exists>x. r ! i = Str x) \<and> r' ! i = strip_val ts (r ! i)
               else r' ! i = r ! i"
    unfolding stripped_row_def by blast
  with assms(3) obtain x where x: "r ! i = Str x" by auto
  have eq: "names ! j = c \<longleftrightarrow> j = i" if "j < length r" for j
    using that assms by (auto simp: nth_eq_iff_index_eq)
  have "r' = r[i := Str (py_strip (ts @ '' '') x)]"
  proof (rule nth_equalityI)
    show "length r' = length (r[i := Str (py_strip (ts @ '' '') x)])"
      using s by (simp add: stripped_row_def)
  next
    fix j assume "j < length r'"
    then have j: "j < length r" using s by (simp add: stripped_row_def)
    from s j have "if names ! j = c then r' ! j = strip_val ts (r ! j) else r' ! j = r ! j"
      by (auto simp: stripped_row_def)
    then show "r' ! j = r[i := Str (py_strip (ts @ '' '') x)] ! j"
      using eq[OF j] j x by (auto simp: strip_val_def split: if_splits)
  qed
  then show "(case strip_column_udf ts (r ! i) of Inl e \<Rightarrow> Inl e | Inr v \<Rightarrow> Inr (r[i := v])) = Inr r'"
    by (simp add: strip_column_udf_def x)
qed

lemma list_all2_cong_left:
  "(\<And>x y. x \<in> set xs \<Longrightarrow> P x y \<longleftrightarrow> Q x y) \<Longrightarrow> list_all2 P xs ys \<longleftrightarrow> list_all2 Q xs ys"
  by (auto simp: list_all2_conv_all_nth)

lemma string_column_resolves:
  assumes "distinct (columns df)" and "(c, ty) \<in> set (schema df)"
  shows "\<exists>i. resolve df c = Inr i \<and> i < length (schema df) \<and> schema df ! i = (c, ty)"
proof -
  from assms(2) obtain i where i: "i < length (schema df)" "schema df ! i = (c, ty)"
    by (auto simp: in_set_conv_nth)
  then have "resolve df c = Inr i" using assms(1) by (intro resolve_unique) simp_all
  with i show ?thesis by blast
qed

lemma with_column_udf_strip:
  assumes wf: "wf_df df" and c: "(c, ''string'') \<in> set (schema df)"
  shows "\<exists>d. with_column_udf c (strip_column_udf ts) df = Inr d \<and> stripped_frame ts [c] df d"
proof -
  from wf have dist: "distinct (columns df)" by (rule wf_distinct)
  from string_column_resolves[OF dist c] obtain i where
    r: "resolve df c = Inr i" and i: "i < length (schema df)" and si: "schema df ! i = (c, ''string'')"
    by blast
  let ?f = "\<lambda>r. case strip_column_udf ts (r ! i) of Inl e \<Rightarrow> Inl e | Inr v \<Rightarrow> Inr (r[i := v])"
  let ?d = "df\<lparr>schema := (schema df)[i := (c, ''string'')], rows := map_rows ?f (rows df)\<rparr>"
  have d: "with_column_udf c (strip_column_udf ts) df = Inr ?d"
    by (simp add: with_column_udf_def r)
  have sch: "schema ?d = schema df" using si by (simp add: list_update_same_conv[THEN iffD2] i)
  have ni: "columns df ! i = c" "i < length (columns df)" using i si by (simp_all add: columns_def)
  have "rows ?d = Inr rs' \<longleftrightarrow>
        (\<exists>rs. rows df = Inr rs \<and> list_all2 (stripped_row ts [c] (columns df)) rs rs')" for rs'
  proof (cases "rows df")
    case (Inl e)
    then show ?thesis by (simp add: map_rows_def)
  next
    case (Inr rs)
    with wf have len: "\<forall>r \<in> set rs. length r = length (columns df)"
      by (simp add: wf_df_def list_all_iff columns_def)
    have "list_all2 (\<lambda>r r'. ?f r = Inr r') rs rs' \<longleftrightarrow> list_all2 (stripped_row ts [c] (columns df)) rs rs'"
    proof (rule list_all2_cong_left)
      fix r r' assume "r \<in> set rs"
      with len have "length r = length (columns df)" by blast
      then show "?f r = Inr r' \<longleftrightarrow> stripped_row ts [c] (columns df) r r'"
        using ni dist by (intro strip_step_row) simp_all
    qed
    then show ?thesis using Inr by (simp add: map_rows_def mapE_Inr_iff)
  qed
  then have "stripped_frame ts [c] df ?d" unfolding stripped_frame_def using sch by blast
  with d show ?thesis by blast
qed

lemma strip_loop_Done:
  assumes "wf_df (train_df s)" and "wf_df (test_df s)"
    and "\<forall>c \<in> set cols. (c, ''string'') \<in> set (schema (train_df s))"
    and "\<forall>c \<in> set cols. (c, ''string'') \<in> set (schema (test_df s))"
  shows "\<exists>tr te. strip_loop ts cols s = Done (s\<lparr>train_df := tr, test_df := te\<rparr>)
           \<and> stripped_frame ts cols (train_df s) tr \<and> stripped_frame ts cols (test_df s) te"
  using assms
proof (induction cols arbitrary: s)
  case Nil
  show ?case
    by (rule exI[of _ "train_df s"], rule exI[of _ "test_df s"]) (simp add: stripped_frame_Nil)
next
  case (Cons c cs)
  from Cons.prems obtain tr1 where tr1: "with_column_udf c (strip_column_udf ts) (train_df s) = Inr tr1"
    and f1: "stripped_frame ts [c] (train_df s) tr1"
    using with_column_udf_strip[of "train_df s" c ts] by auto
  from Cons.prems obtain te1 where te1: "with_column_udf c (strip_column_udf ts) (test_df s) = Inr te1"
    and g1: "stripped_frame ts [c] (test_df s) te1"
    using with_column_udf_strip[of "test_df s" c ts] by auto
  let ?s1 = "s\<lparr>train_df := tr1, test_df := te1\<rparr>"
  have step: "strip_loop ts (c # cs) s = strip_loop ts cs ?s1"
    by (simp add: tr1 te1)
  have w1: "wf_df (train_df ?s1)" "wf_df (test_df ?s1)"
    using Cons.prems(1,2) f1 g1 by (auto intro: stripped_frame_wf)
  have sch: "schema tr1 = schema (train_df s)" "schema te1 = schema (test_df s)"
    using f1 g1 by (simp_all add: stripped_frame_def)
  have c1: "\<forall>c \<in> set cs. (c, ''string'') \<in> set (schema (train_df ?s1))"
       "\<forall>c \<in> set cs. (c, ''string'') \<in> set (schema (test_df ?s1))"
    using Cons.prems(3,4) sch by simp_all
  from Cons.IH[OF w1 c1] obtain tr te where
    l: "strip_loop ts cs ?s1 = Done (?s1\<lparr>train_df := tr, test_df := te\<rparr>)"
    and f2: "stripped_frame ts cs tr1 tr" and g2: "stripped_frame ts cs te1 te"
    by auto
  have "strip_loop ts (c # cs) s = Done (s\<lparr>train_df := tr, test_df := te\<rparr>)"
    using step l by simp
  moreover have "stripped_frame ts (c # cs) (train_df s) tr" using f1 f2 by (rule stripped_frame_comp)
  moreover have "stripped_frame ts (c # cs) (test_df s) te" using g1 g2 by (rule stripped_frame_comp)
  ultimately show ?case by blast
qed

lemma cols_of_types_mem:
  "c \<in> set (cols_of_types types df) \<longleftrightarrow> (\<exists>ty \<in> set types. (c, ty) \<in> set (schema df))"
  by (auto simp: cols_of_types_def dtypes_def image_iff)

lemma factors_InrD:
  "factors s = Inr fs \<Longrightarrow>
   fs = cols_of_types [''string''] (train_df s) \<and> fs = cols_of_types [''string''] (test_df s)"
  by (auto simp: factors_def get_cols_by_types_def Let_def split: if_splits)

lemma factors_mem:
  assumes "factors s = Inr fs"
  shows "c \<in> set fs \<longleftrightarrow> (c, ''string'') \<in> set (schema (train_df s))"
    and "c \<in> set fs \<longleftrightarrow> (c, ''string'') \<in> set (schema (test_df s))"
proof -
  from factors_InrD[OF assms] have 1: "fs = cols_of_types [''string''] (train_df s)"
    and 2: "fs = cols_of_types [''string''] (test_df s)" by blast+
  show "c \<in> set fs \<longleftrightarrow> (c, ''string'') \<in> set (schema (train_df s))"
    by (subst 1) (simp add: cols_of_types_mem)
  show "c \<in> set fs \<longleftrightarrow> (c, ''string'') \<in> set (schema (test_df s))"
    by (subst 2) (simp add: cols_of_types_mem)
qed

lemma all_in_factors_Inr:
  "factors s = Inr fs \<Longrightarrow> all_in_factors cols s = Inr (set cols \<subseteq> set fs)"
  by (induction cols) auto

lemma assert_are_factors_Inr:
  "factors s = Inr fs \<Longrightarrow>
   assert_are_factors cols s = (if set cols \<subseteq> set fs then Inr () else Inl (AssertionError (NotFactors cols)))"
  by (simp add: assert_are_factors_def all_in_factors_Inr)

lemma strip_columns_cases:
  assumes "wf_df (train_df s)" and "wf_df (test_df s)" and "factors s = Inr fs"
  shows "(\<not> set cols \<subseteq> set fs \<longrightarrow>
            strip_columns cols to_strip s = Raised (AssertionError (NotFactors cols)) s) \<and>
         (set cols \<subseteq> set fs \<longrightarrow>
            (\<exists>tr te. strip_columns cols to_strip s = Done (s\<lparr>train_df := tr, test_df := te\<rparr>)
               \<and> stripped_frame to_strip cols (train_df s) tr
               \<and> stripped_frame to_strip cols (test_df s) te))"
proof (intro conjI impI)
  assume "\<not> set cols \<subseteq> set fs"
  then show "strip_columns cols to_strip s = Raised (AssertionError (NotFactors cols)) s"
    by (simp add: strip_columns_def assert_are_factors_Inr[OF assms(3)])
next
  assume sub: "set cols \<subseteq> set fs"
  then have a: "assert_are_factors cols s = Inr ()"
    by (simp add: assert_are_factors_Inr[OF assms(3)])
  from sub have "\<forall>c \<in> set cols. (c, ''string'') \<in> set (schema (train_df s))"
    and "\<forall>c \<in> set cols. (c, ''string'') \<in> set (schema (test_df s))"
    using factors_mem[OF assms(3)] by auto
  from strip_loop_Done[OF assms(1,2) this, of to_strip]
  show "\<exists>tr te. strip_columns cols to_strip s = Done (s\<lparr>train_df := tr, test_df := te\<rparr>)
               \<and> stripped_frame to_strip cols (train_df s) tr
               \<and> stripped_frame to_strip cols (test_df s) te"
    by (simp add: strip_columns_def a)
qed



lemma same_schema_factors:
  "same_schema s \<Longrightarrow> factors s = Inr (cols_of_types [''string''] (train_df s))"
  by (simp add: factors_def get_cols_by_types_def same_schema_def cols_of_types_def dtypes_def)

lemma same_schema_numeric:
  "same_schema s \<Longrightarrow> numeric_columns s = Inr (cols_of_types [''double'', ''int''] (train_df s))"
  by (simp add: numeric_columns_def get_cols_by_types_def same_schema_def cols_of_types_def dtypes_def)

lemma strip_columns_inv:
  assumes "consistent s"
  shows "consistent (state_of (strip_columns cols ts s))"
proof -
  from assms have w: "wf_df (train_df s)" "wf_df (test_df s)" and ss: "same_schema s"
    by (simp_all add: consistent_def)
  note f = same_schema_factors[OF ss]
  note spec = strip_columns_cases[OF w f, of cols ts]
  show ?thesis
  proof (cases "set cols \<subseteq> set (cols_of_types [''string''] (train_df s))")
    case False
    with spec assms show ?thesis by simp
  next
    case True
    with spec obtain tr te where d: "strip_columns cols ts s = Done (s\<lparr>train_df := tr, test_df := te\<rparr>)"
      and f1: "stripped_frame ts cols (train_df s) tr" and f2: "stripped_frame ts cols (test_df s) te"
      by blast
    from f1 f2 ss have "schema tr = schema te" by (simp add: stripped_frame_def same_schema_def)
    moreover have "wf_df tr" "wf_df te" using w f1 f2 by (auto intro: stripped_frame_wf)
    ultimately show ?thesis by (simp add: d consistent_def same_schema_def)
  qed
qed

lemma fit_and_transform_inv:
  assumes "consistent s"
  shows "consistent (state_of (fit_and_transform m s))"
proof (cases "fit_and_transform m s")
  case (Done s')
  from assms have ss: "same_schema s" by (simp add: consistent_def)
  from Done obtain fm tr te where
    tr: "transform fm (train_df s) = Inr tr" and te: "transform fm (test_df s) = Inr te"
    and s': "s' = s\<lparr>train_df := tr, test_df := te\<rparr>"
    by (auto simp: fit_and_transform_def split: sum.splits)
  have "wf_df tr" "wf_df te" using assms tr te by (auto simp: consistent_def intro: transform_wf)
  moreover have "same_schema s'" using ss Done by (rule fit_and_transform_same_schema)
  ultimately show ?thesis using Done s' by (simp add: consistent_def)
next
  case (Raised e s')
  from assms have "same_schema s" by (simp add: consistent_def)
  from fit_and_transform_Raised[OF this Raised] Raised assms show ?thesis by simp
qed

lemma string_index_inv: "consistent s \<Longrightarrow> consistent (state_of (string_index cols sfx s))"
  by (cases "assert_are_factors cols s") (simp_all add: string_index_def fit_and_transform_inv)

lemma one_hot_encode_inv: "consistent s \<Longrightarrow> consistent (state_of (one_hot_encode cols sfx s))"
  by (simp add: one_hot_encode_def fit_and_transform_inv)

lemma assemble_features_inv: "consistent s \<Longrightarrow> consistent (state_of (assemble_features cols out s))"
  by (simp add: assemble_features_def fit_and_transform_inv)







lemma distinct_fst_unique:
  "distinct (map fst xs) \<Longrightarrow> (c, a) \<in> set xs \<Longrightarrow> (c, b) \<in> set xs \<Longrightarrow> a = b"
  by (meson eq_key_imp_eq_value)









lemma extends_refl: "extends df df"
  by (auto simp: extends_def list_all2_refl)

lemma list_all2_prefix_trans:
  "list_all2 prefix xs ys \<Longrightarrow> list_all2 prefix ys zs \<Longrightarrow> list_all2 prefix xs zs"
  by (rule list_all2_trans[of prefix prefix prefix]) (auto intro: prefix_order.trans)

lemma extends_trans:
  assumes "extends a b" and "extends b c"
  shows "extends a c"
proof -
  have "prefix (schema a) (schema c)"
    using assms by (auto simp: extends_def intro: prefix_order.trans)
  moreover have "\<exists>rs. rows a = Inr rs \<and> list_all2 prefix rs rs'" if "rows c = Inr rs'" for rs'
  proof -
    from that assms(2) obtain rsb where b: "rows b = Inr rsb" "list_all2 prefix rsb rs'"
      by (auto simp: extends_def)
    from b(1) assms(1) obtain rsa where a: "rows a = Inr rsa" "list_all2 prefix rsa rsb"
      by (auto simp: extends_def)
    from a(2) b(2) have "list_all2 prefix rsa rs'" by (rule list_all2_prefix_trans)
    with a(1) show ?thesis by blast
  qed
  ultimately show ?thesis by (simp add: extends_def)
qed

lemma extends_append_col: "extends df (append_col out ty g df)"
proof -
  have "\<exists>rs. rows df = Inr rs \<and> list_all2 prefix rs rs'"
    if "rows (append_col out ty g df) = Inr rs'" for rs'
  proof -
    from that obtain rs where rs: "rows df = Inr rs"
      and l: "list_all2 (\<lambda>r r'. \<exists>v. g r = Inr v \<and> r' = r @ [v]) rs rs'"
      by (auto simp: rows_append_col_Inr)
    from l have "list_all2 prefix rs rs'"
      by (rule list_all2_mono) auto
    with rs show ?thesis by blast
  qed
  then show ?thesis by (simp add: extends_def)
qed

lemma si_transform_extends: "si_transform m df = Inr d \<Longrightarrow> extends df d"
  by (cases m) (auto simp: si_transform_def extends_append_col split: sum.splits)

lemma pipeline_transform_extends: "pipeline_transform ms df = Inr d \<Longrightarrow> extends df d"
proof (induction ms arbitrary: df)
  case Nil
  then show ?case by (simp add: extends_refl)
next
  case (Cons m ms)
  from Cons.prems obtain d1 where d1: "si_transform m df = Inr d1"
    and d: "pipeline_transform ms d1 = Inr d"
    by (auto split: sum.splits)
  from si_transform_extends[OF d1] Cons.IH[OF d] show ?case by (rule extends_trans)
qed

lemma ohe_append_extends: "extends df (ohe_append ts df)"
proof (induction ts arbitrary: df)
  case Nil
  then show ?case by (simp add: extends_refl)
next
  case (Cons t ts)
  obtain i out n where t: "t = (i, out, n)" by (cases t)
  have "extends df (append_col out ''vector'' (\<lambda>r. ohe_cell n (r ! i)) df)"
    by (rule extends_append_col)
  then show ?case unfolding t ohe_append.simps using Cons.IH by (rule extends_trans)
qed

lemma transform_extends: "transform m df = Inr d \<Longrightarrow> extends df d"
  by (cases m)
     (auto simp: pipeline_transform_extends ohe_transform_def va_transform_def ohe_append_extends
        extends_append_col split: sum.splits)

lemma extends_resolve:
  assumes "extends df d" and "wf_df d" and "resolve df c = Inr i"
  shows "resolve d c = Inr i"
proof -
  from resolve_InrD[OF assms(3)] have i: "i < length (schema df)" "fst (schema df ! i) = c" by simp_all
  from assms(1) obtain new where n: "schema d = schema df @ new" by (auto simp: extends_def prefix_def)
  from i n have "i < length (schema d)" "fst (schema d ! i) = c" by (simp_all add: nth_append)
  with wf_distinct[OF assms(2)] show ?thesis by (intro resolve_unique)
qed

lemma extends_cells:
  assumes "extends df d" and "wf_df df" and "rows d = Inr rs'" and "i < length (schema df)"
  shows "\<exists>rs. rows df = Inr rs \<and> map (\<lambda>r. r ! i) rs' = map (\<lambda>r. r ! i) rs"
proof -
  from assms(1,3) obtain rs where rs: "rows df = Inr rs" and l: "list_all2 prefix rs rs'"
    by (auto simp: extends_def)
  from assms(2) rs have len: "\<forall>r \<in> set rs. length r = length (schema df)"
    by (simp add: wf_df_def list_all_iff)
  have "map (\<lambda>r. r ! i) rs' = map (\<lambda>r. r ! i) rs"
  proof (rule nth_equalityI)
    show "length (map (\<lambda>r. r ! i) rs') = length (map (\<lambda>r. r ! i) rs)"
      using l by (simp add: list_all2_lengthD)
  next
    fix k assume "k < length (map (\<lambda>r. r ! i) rs')"
    then have k: "k < length rs" "k < length rs'" using l by (simp_all add: list_all2_lengthD)
    from l k have p: "prefix (rs ! k) (rs' ! k)" by (simp add: list_all2_nthD)
    from len k have "length (rs ! k) = length (schema df)" by simp
    with p assms(4) have "rs' ! k ! i = rs ! k ! i" by (auto simp: prefix_def nth_append)
    with k show "map (\<lambda>r. r ! i) rs' ! k = map (\<lambda>r. r ! i) rs ! k" by simp
  qed
  with rs show ?thesis by blast
qed

lemma extends_column_of:
  assumes "extends df d" and "wf_df df" and "wf_df d" and "resolve df c = Inr i" and "rows d = Inr rs'"
  shows "column_of c d = column_of c df"
proof -
  from resolve_InrD[OF assms(4)] have i: "i < length (schema df)" by simp
  from extends_cells[OF assms(1,2,5) i] obtain rs where
    "rows df = Inr rs" "map (\<lambda>r. r ! i) rs' = map (\<lambda>r. r ! i) rs" by blast
  then show ?thesis
    by (simp add: column_of_def assms(4,5) extends_resolve[OF assms(1,3,4)])
qed

subsection \<open>One-hot encoding\<close>

lemma ohe_fit_InrD:
  "ohe_fit inps outs df = Inr sizes \<Longrightarrow>
   \<exists>is. ohe_check inps outs df = Inr is \<and> length sizes = length inps"
  by (auto simp: ohe_fit_def split: sum.splits dest!: mapE_length ohe_check_InrD)

lemma zip3_schema:
  assumes "length is = length outs" and "length sizes = length outs"
  shows "map (\<lambda>(i, out, n). (out, ''vector'')) (zip is (zip outs sizes)) = map (\<lambda>out. (out, ''vector'')) outs"
proof -
  have "map (\<lambda>(i, out, n). (out, ''vector'')) (zip is (zip outs sizes)) =
        map (\<lambda>out. (out, ''vector'')) (map (\<lambda>(i, out, n). out) (zip is (zip outs sizes)))"
    by (simp add: split_def comp_def)
  also have "\<dots> = map (\<lambda>out. (out, ''vector'')) outs"
    unfolding zip3_outs using assms by simp
  finally show ?thesis .
qed

lemma ohe_transform_schema_eq:
  assumes "ohe_transform inps outs sizes df = Inr d" and "length sizes = length inps"
  shows "schema d = schema df @ map (\<lambda>out. (out, ''vector'')) outs"
proof -
  from assms(1) obtain "is" where c: "ohe_check inps outs df = Inr is"
    and d: "d = ohe_append (zip is (zip outs sizes)) df"
    by (auto simp: ohe_transform_def split: sum.splits)
  from ohe_check_InrD[OF c] assms(2) have "length is = length outs" "length sizes = length outs"
    by simp_all
  then show ?thesis unfolding d schema_ohe_append by (simp add: zip3_schema)
qed

lemma one_hot_encode_DoneD:
  assumes "one_hot_encode cols sfx s = Done s'"
  shows "\<exists>sizes tr te. ohe_fit cols (map (\<lambda>col. col @ sfx) cols) (train_df s) = Inr sizes
           \<and> ohe_transform cols (map (\<lambda>col. col @ sfx) cols) sizes (train_df s) = Inr tr
           \<and> ohe_transform cols (map (\<lambda>col. col @ sfx) cols) sizes (test_df s) = Inr te
           \<and> s' = s\<lparr>train_df := tr, test_df := te\<rparr>
           \<and> schema tr = schema (train_df s) @ map (\<lambda>col. (col @ sfx, ''vector'')) cols
           \<and> schema te = schema (test_df s) @ map (\<lambda>col. (col @ sfx, ''vector'')) cols"
proof -
  let ?outs = "map (\<lambda>col. col @ sfx) cols"
  from assms obtain sizes tr te where
    f: "ohe_fit cols ?outs (train_df s) = Inr sizes"
    and tr: "ohe_transform cols ?outs sizes (train_df s) = Inr tr"
    and te: "ohe_transform cols ?outs sizes (test_df s) = Inr te"
    and s': "s' = s\<lparr>train_df := tr, test_df := te\<rparr>"
    by (auto simp: one_hot_encode_def fit_and_transform_def split: sum.splits)
  from ohe_fit_InrD[OF f] have l: "length sizes = length cols" by auto
  from ohe_transform_schema_eq[OF tr l] ohe_transform_schema_eq[OF te l] f tr te s'
  show ?thesis by (simp add: comp_def)
qed

text \<open>
  C3, as the code has it: a call of \<^verbatim>\<open>one_hot_encode\<close> that returns has fitted the encoder
  on the train frame (the encoder has a \<^verbatim>\<open>fit\<close>, so \<^verbatim>\<open>_fit_and_transform\<close> calls it on the
  train frame), has transformed the train frame and the test frame with that one fitted
  encoder, and has appended to both, in the order of the input columns, one new column of
  type vector named by the input column and the suffix.
\<close>

theorem one_hot_encode_fits_on_train:
  assumes "one_hot_encode cols sfx s = Done s'"
  shows "\<exists>sizes. ohe_fit cols (map (\<lambda>col. col @ sfx) cols) (train_df s) = Inr sizes
           \<and> ohe_transform cols (map (\<lambda>col. col @ sfx) cols) sizes (train_df s) = Inr (train_df s')
           \<and> ohe_transform cols (map (\<lambda>col. col @ sfx) cols) sizes (test_df s) = Inr (test_df s')
           \<and> schema (train_df s') = schema (train_df s) @ map (\<lambda>col. (col @ sfx, ''vector'')) cols
           \<and> schema (test_df s') = schema (test_df s) @ map (\<lambda>col. (col @ sfx, ''vector'')) cols"
  using one_hot_encode_DoneD[OF assms] by auto

theorem one_hot_encode_fits_on_train_witness:
  "\<exists>sizes. ohe_fit [''idx''] (map (\<lambda>col. col @ ''_vec'') [''idx'']) (train_df ohe_a) = Inr sizes
     \<and> sizes = [3]
     \<and> schema (train_df (state_of (one_hot_encode [''idx''] ''_vec'' ohe_a)))
         = [(''idx'', ''double''), (''idx_vec'', ''vector'')]
     \<and> schema (test_df (state_of (one_hot_encode [''idx''] ''_vec'' ohe_a)))
         = [(''idx'', ''double''), (''idx_vec'', ''vector'')]"
proof -
  have d: "one_hot_encode [''idx''] ''_vec'' ohe_a =
     Done (ohe_a\<lparr>train_df := \<lparr>schema = [(''idx'', ''double''), (''idx_vec'', ''vector'')],
                              rows = Inr [[Dbl 0, Vec [1, 0]], [Dbl 1, Vec [0, 1]], [Dbl 2, Vec [0, 0]]]\<rparr>,
                 test_df := \<lparr>schema = [(''idx'', ''double''), (''idx_vec'', ''vector'')],
                             rows = Inr [[Dbl 0, Vec [1, 0]], [Dbl 1, Vec [0, 1]]]\<rparr>\<rparr>)"
    by code_simp
  have f: "ohe_fit [''idx''] (map (\<lambda>col. col @ ''_vec'') [''idx'']) (train_df ohe_a) = Inr [3]"
    by code_simp
  from one_hot_encode_fits_on_train[OF d] f show ?thesis
    by (simp add: d)
qed

text \<open>
  C3 as stated fails: the same call on the same test frame gives vectors of length two when
  the train frame has three categories and vectors of length one when it has two. What is
  derived from the train frame alone decides how the test frame is transformed.
\<close>

theorem one_hot_encode_test_depends_on_train:
  "test_df ohe_a = test_df ohe_b
   \<and> schema (train_df ohe_a) = schema (train_df ohe_b)
   \<and> rows (test_df (state_of (one_hot_encode [''idx''] ''_vec'' ohe_a)))
       = Inr [[Dbl 0, Vec [1, 0]], [Dbl 1, Vec [0, 1]]]
   \<and> rows (test_df (state_of (one_hot_encode [''idx''] ''_vec'' ohe_b)))
       = Inr [[Dbl 0, Vec [1]], [Dbl 1, Vec [0]]]"
  by code_simp

subsection \<open>The columns passed to assembly\<close>

text \<open>
  C7 at an instance with a bigint column named \<^verbatim>\<open>z_cat_vec\<close> and target \<^verbatim>\<open>t\<close>: no column is
  encoded and no numeric column is left after the target is removed, yet the list passed
  to assembly is that column, picked by its name, and the features are its cells.
\<close>

theorem columns_to_assemble_by_name:
  "numeric_columns named_state = Inr [''t'']
   \<and> factors named_state = Inr []
   \<and> one_hot_encode_columns ''t'' named_state = Inr []
   \<and> numeric_to_assemble ''t'' named_state = Inr []
   \<and> columns_to_assemble ''t'' named_state = Inr [''z_cat_vec'']
   \<and> steps_done ''t'' '' '' named_state
       = [named_state, named_state, named_state, named_state,
          named_state\<lparr>train_df := \<lparr>schema = [(''t'', ''int''), (''z_cat_vec'', ''bigint''), (''features'', ''vector'')],
                                     rows = Inr [[IntV 1, IntV 5, Vec [5]], [IntV 0, IntV 6, Vec [6]]]\<rparr>,
                       test_df := \<lparr>schema = [(''t'', ''int''), (''z_cat_vec'', ''bigint''), (''features'', ''vector'')],
                                    rows = Inr [[IntV 1, IntV 7, Vec [7]]]\<rparr>\<rparr>]"
  by code_simp

subsection \<open>Failure inside \<^verbatim>\<open>prepare_to_model\<close>\<close>









subsection \<open>Columns through the steps of \<^verbatim>\<open>prepare_to_model\<close>\<close>

lemma column_of_InrD:
  "column_of c df = Inr vs \<Longrightarrow> \<exists>i rs. resolve df c = Inr i \<and> rows df = Inr rs \<and> vs = map (\<lambda>r. r ! i) rs"
  by (auto simp: column_of_def split: sum.splits)

lemma stripped_frame_resolve:
  "stripped_frame ts cols df d \<Longrightarrow> resolve d c = resolve df c"
  by (rule resolve_cong) (simp add: stripped_frame_def)

lemma stripped_frame_column_other:
  assumes "stripped_frame ts cols df d" and "wf_df df" and "resolve df c = Inr i"
    and "c \<notin> set cols" and "rows d = Inr rs'"
  shows "column_of c d = column_of c df"
proof -
  from assms(1,5) obtain rs where rs: "rows df = Inr rs"
    and l: "list_all2 (stripped_row ts cols (columns df)) rs rs'"
    by (auto simp: stripped_frame_def)
  from resolve_InrD[OF assms(3)] have i: "i < length (schema df)" "columns df ! i = c"
    by (simp_all add: columns_def)
  from assms(2) rs have len: "\<forall>r \<in> set rs. length r = length (schema df)"
    by (simp add: wf_df_def list_all_iff)
  have "map (\<lambda>r. r ! i) rs' = map (\<lambda>r. r ! i) rs"
  proof (rule nth_equalityI)
    show "length (map (\<lambda>r. r ! i) rs') = length (map (\<lambda>r. r ! i) rs)"
      using l by (simp add: list_all2_lengthD)
  next
    fix k assume "k < length (map (\<lambda>r. r ! i) rs')"
    then have k: "k < length rs" "k < length rs'" using l by (simp_all add: list_all2_lengthD)
    from l k have p: "stripped_row ts cols (columns df) (rs ! k) (rs' ! k)" by (simp add: list_all2_nthD)
    from len k have "i < length (rs ! k)" using i by simp
    with p i assms(4) have "rs' ! k ! i = rs ! k ! i" by (auto simp: stripped_row_def)
    with k show "map (\<lambda>r. r ! i) rs' ! k = map (\<lambda>r. r ! i) rs ! k" by simp
  qed
  with rs show ?thesis
    by (simp add: column_of_def assms(3,5) stripped_frame_resolve[OF assms(1)])
qed

lemma stripped_frame_column_listed:
  assumes "stripped_frame ts cols df d" and "wf_df df" and "resolve df c = Inr i"
    and "c \<in> set cols" and "rows d = Inr rs'"
  shows "\<exists>vs. column_of c df = Inr vs \<and> column_of c d = Inr (map (strip_val ts) vs)"
proof -
  from assms(1,5) obtain rs where rs: "rows df = Inr rs"
    and l: "list_all2 (stripped_row ts cols (columns df)) rs rs'"
    by (auto simp: stripped_frame_def)
  from resolve_InrD[OF assms(3)] have i: "i < length (schema df)" "columns df ! i = c"
    by (simp_all add: columns_def)
  from assms(2) rs have len: "\<forall>r \<in> set rs. length r = length (schema df)"
    by (simp add: wf_df_def list_all_iff)
  have "map (\<lambda>r. r ! i) rs' = map (strip_val ts) (map (\<lambda>r. r ! i) rs)"
  proof (rule nth_equalityI)
    show "length (map (\<lambda>r. r ! i) rs') = length (map (strip_val ts) (map (\<lambda>r. r ! i) rs))"
      using l by (simp add: list_all2_lengthD)
  next
    fix k assume "k < length (map (\<lambda>r. r ! i) rs')"
    then have k: "k < length rs" "k < length rs'" using l by (simp_all add: list_all2_lengthD)
    from l k have p: "stripped_row ts cols (columns df) (rs ! k) (rs' ! k)" by (simp add: list_all2_nthD)
    from len k have "i < length (rs ! k)" using i by simp
    with p i assms(4) have "rs' ! k ! i = strip_val ts (rs ! k ! i)" by (auto simp: stripped_row_def)
    with k show "map (\<lambda>r. r ! i) rs' ! k = map (strip_val ts) (map (\<lambda>r. r ! i) rs) ! k" by simp
  qed
  with rs show ?thesis
    by (simp add: column_of_def assms(3,5) stripped_frame_resolve[OF assms(1)])
qed

lemma pipeline_transform_schema_eq:
  "pipeline_transform ms d = Inr d' \<Longrightarrow>
   schema d' = schema d @ map (\<lambda>(inp, out, labels). (out, ''double'')) ms"
proof (induction ms arbitrary: d)
  case Nil
  then show ?case by simp
next
  case (Cons m ms)
  obtain inp out labels where m: "m = (inp, out, labels)" by (cases m)
  from Cons.prems obtain d1 where d1: "si_transform m d = Inr d1"
    and d': "pipeline_transform ms d1 = Inr d'"
    by (auto split: sum.splits)
  from d1 have "schema d1 = schema d @ [(out, ''double'')]"
    by (auto simp: si_transform_def m split: sum.splits)
  with Cons.IH[OF d'] show ?case by (simp add: m)
qed

lemma append_col_column:
  assumes "wf_df df" and "out \<notin> set (columns df)" and "rows (append_col out ty g df) = Inr rs'"
  shows "\<exists>rs. rows df = Inr rs \<and> mapE g rs = Inr (map (\<lambda>r. r ! length (schema df)) rs')
           \<and> resolve (append_col out ty g df) out = Inr (length (schema df))"
proof -
  from assms(3) obtain rs where rs: "rows df = Inr rs"
    and l: "list_all2 (\<lambda>r r'. \<exists>v. g r = Inr v \<and> r' = r @ [v]) rs rs'"
    by (auto simp: rows_append_col_Inr)
  from assms(1) rs have len: "\<forall>r \<in> set rs. length r = length (schema df)"
    by (simp add: wf_df_def list_all_iff)
  have "list_all2 (\<lambda>r v. g r = Inr v) rs (map (\<lambda>r. r ! length (schema df)) rs')"
    unfolding list_all2_conv_all_nth
  proof (intro conjI allI impI)
    show "length rs = length (map (\<lambda>r. r ! length (schema df)) rs')"
      using l by (simp add: list_all2_lengthD)
  next
    fix k assume k: "k < length rs"
    then have k': "k < length rs'" using l by (simp add: list_all2_lengthD)
    from l k obtain v where v: "g (rs ! k) = Inr v" "rs' ! k = rs ! k @ [v]"
      by (auto dest: list_all2_nthD)
    from len k have "length (schema df) = length (rs ! k)" by simp
    with v k' show "g (rs ! k) = Inr (map (\<lambda>r. r ! length (schema df)) rs' ! k)" by simp
  qed
  then have "mapE g rs = Inr (map (\<lambda>r. r ! length (schema df)) rs')" by (simp add: mapE_Inr_iff)
  moreover have "resolve (append_col out ty g df) out = Inr (length (schema df))"
    using wf_append_col[OF assms(1,2), of ty g]
    by (intro resolve_unique) (simp_all add: wf_df_def)
  ultimately show ?thesis using rs by blast
qed

lemma mapE_map: "mapE f (map g xs) = mapE (\<lambda>x. f (g x)) xs"
  by (induction xs) (simp_all split: sum.splits)

lemma si_transform_codes:
  assumes "wf_df d" and "si_transform (inp, out, labels) d = Inr d1" and "rows d1 = Inr rs1"
  shows "\<exists>vs. column_of inp d = Inr vs \<and> column_of out d1 = mapE (si_code labels) vs"
proof -
  from assms(2) obtain i where c: "si_check inp out d = Inr i"
    and d1: "d1 = append_col out ''double'' (\<lambda>r. si_code labels (r ! i)) d"
    by (auto simp: si_transform_def split: sum.splits)
  from si_check_InrD[OF c] have r: "resolve d inp = Inr i" and o: "out \<notin> set (columns d)" by simp_all
  from append_col_column[OF assms(1) o assms(3)[unfolded d1]] obtain rs where
    rs: "rows d = Inr rs"
    and m: "mapE (\<lambda>r. si_code labels (r ! i)) rs = Inr (map (\<lambda>r. r ! length (schema d)) rs1)"
    and ro: "resolve d1 out = Inr (length (schema d))"
    unfolding d1 by blast
  have "column_of inp d = Inr (map (\<lambda>r. r ! i) rs)" by (simp add: column_of_def r rs)
  moreover have "column_of out d1 = mapE (si_code labels) (map (\<lambda>r. r ! i) rs)"
    by (simp add: column_of_def ro assms(3) mapE_map m)
  ultimately show ?thesis by blast
qed

lemma extends_rows_Inr: "extends df d \<Longrightarrow> rows d = Inr rs' \<Longrightarrow> \<exists>rs. rows df = Inr rs"
  by (auto simp: extends_def)

lemma pipeline_transform_codes:
  assumes "wf_df d" and "pipeline_transform ms d = Inr d'" and "(inp, out, labels) \<in> set ms"
    and "resolve d inp = Inr i" and "rows d' = Inr rs'"
  shows "\<exists>vs. column_of inp d = Inr vs \<and> column_of out d' = mapE (si_code labels) vs"
  using assms
proof (induction ms arbitrary: d)
  case Nil
  then show ?case by simp
next
  case (Cons m ms)
  from Cons.prems(2) obtain d1 where d1: "si_transform m d = Inr d1"
    and d': "pipeline_transform ms d1 = Inr d'"
    by (auto split: sum.splits)
  have w1: "wf_df d1" using Cons.prems(1) d1 by (rule si_transform_wf)
  have w': "wf_df d'" using w1 d' by (rule pipeline_transform_wf)
  have e1: "extends d d1" using d1 by (rule si_transform_extends)
  have e': "extends d1 d'" using d' by (rule pipeline_transform_extends)
  from extends_rows_Inr[OF e' Cons.prems(5)] obtain rs1 where rs1: "rows d1 = Inr rs1" by blast
  show ?case
  proof (cases "m = (inp, out, labels)")
    case True
    from si_transform_codes[OF Cons.prems(1) d1[unfolded True] rs1] obtain vs where
      vs: "column_of inp d = Inr vs" "column_of out d1 = mapE (si_code labels) vs" by blast
    from d1 True have "out \<in> set (columns d1)"
      by (auto simp: si_transform_def split: sum.splits)
    with w1 obtain k where k: "resolve d1 out = Inr k" using resolve_distinct wf_distinct by blast
    from extends_column_of[OF e' w1 w' k Cons.prems(5)] have "column_of out d' = column_of out d1" .
    with vs show ?thesis by (intro exI[of _ vs]) simp
  next
    case False
    with Cons.prems(3) have mem: "(inp, out, labels) \<in> set ms" by simp
    have r1: "resolve d1 inp = Inr i" using e1 w1 Cons.prems(4) by (rule extends_resolve)
    from Cons.IH[OF w1 d' mem r1 Cons.prems(5)] obtain vs where
      vs: "column_of inp d1 = Inr vs" "column_of out d' = mapE (si_code labels) vs" by blast
    from extends_column_of[OF e1 Cons.prems(1) w1 Cons.prems(4) rs1]
    have "column_of inp d1 = column_of inp d" .
    with vs show ?thesis by (intro exI[of _ vs]) simp
  qed
qed

lemma si_fit_labels:
  assumes "si_fit inp out df = Inr labels"
  shows "\<exists>vs. column_of inp df = Inr vs \<and> labels = si_labels vs"
  using assms
  by (auto simp: si_fit_def column_of_def split: sum.splits dest!: si_check_InrD)

lemma pipeline_fit_labels:
  assumes "wf_df df" and "pipeline_fit stages df = Inr ms" and "(inp, out) \<in> set stages"
    and "resolve df inp = Inr i"
  shows "\<exists>labels vs. (inp, out, labels) \<in> set ms \<and> column_of inp df = Inr vs \<and> labels = si_labels vs"
  using assms
proof (induction stages arbitrary: df ms)
  case Nil
  then show ?case by simp
next
  case (Cons st stages)
  obtain inp1 out1 where st: "st = (inp1, out1)" by (cases st)
  from Cons.prems(2) obtain labels1 where f: "si_fit inp1 out1 df = Inr labels1"
    by (auto simp: st split: sum.splits)
  show ?case
  proof (cases "st = (inp, out)")
    case True
    with st have eq: "inp1 = inp" "out1 = out" by simp_all
    from Cons.prems(2) f have "(inp, out, labels1) \<in> set ms"
      by (auto simp: st eq split: sum.splits if_splits)
    with si_fit_labels[OF f] show ?thesis by (auto simp: eq)
  next
    case False
    with Cons.prems(3) have mem: "(inp, out) \<in> set stages" by simp
    then have ne: "stages \<noteq> []" by auto
    with Cons.prems(2) f obtain d1 ms1 where d1: "si_transform (inp1, out1, labels1) df = Inr d1"
      and p: "pipeline_fit stages d1 = Inr ms1" and ms: "ms = (inp1, out1, labels1) # ms1"
      by (auto simp: st split: sum.splits)
    have w1: "wf_df d1" using Cons.prems(1) d1 by (rule si_transform_wf)
    have e1: "extends df d1" using d1 by (rule si_transform_extends)
    have r1: "resolve d1 inp = Inr i" using e1 w1 Cons.prems(4) by (rule extends_resolve)
    from Cons.IH[OF w1 p mem r1] obtain labels vs where
      l: "(inp, out, labels) \<in> set ms1" "column_of inp d1 = Inr vs" "labels = si_labels vs"
      by blast
    from column_of_InrD[OF l(2)] obtain rs1 where "rows d1 = Inr rs1" by blast
    from extends_column_of[OF e1 Cons.prems(1) w1 Cons.prems(4) this]
    have "column_of inp d1 = column_of inp df" .
    with l ms show ?thesis by (intro exI[of _ labels] exI[of _ vs]) simp
  qed
qed

lemma prepare_to_model_DoneD:
  assumes "prepare_to_model t ts s = Done s'"
  shows "\<exists>fs s1 fs1 s2 cs s3 as s4.
           factors s = Inr fs \<and> strip_columns fs ts s = Done s1
         \<and> factors s1 = Inr fs1 \<and> string_index fs1 (indexed_suffix s1) s1 = Done s2
         \<and> one_hot_encode_columns t s2 = Inr cs \<and> one_hot_encode cs (one_hot_suffix s2) s2 = Done s3
         \<and> columns_to_assemble t s3 = Inr as \<and> assemble_features as ''features'' s3 = Done s4
         \<and> select_encoded t s4 = Done s'"
  using assms unfolding prepare_to_model_def
  by (simp split: sum.splits outcome.splits)

lemma string_index_DoneD:
  assumes "string_index cols sfx s = Done s'"
  shows "\<exists>ms tr te. pipeline_fit (map (\<lambda>factor. (factor, factor @ sfx)) cols) (train_df s) = Inr ms
           \<and> pipeline_transform ms (train_df s) = Inr tr
           \<and> pipeline_transform ms (test_df s) = Inr te
           \<and> s' = s\<lparr>train_df := tr, test_df := te\<rparr>"
  using assms
  by (auto simp: string_index_def fit_and_transform_def split: sum.splits)

lemma assemble_features_DoneD:
  assumes "assemble_features cols out s = Done s'"
  shows "\<exists>tr te. va_transform cols out (train_df s) = Inr tr
           \<and> va_transform cols out (test_df s) = Inr te
           \<and> s' = s\<lparr>train_df := tr, test_df := te\<rparr>"
  using assms
  by (auto simp: assemble_features_def fit_and_transform_def split: sum.splits)

lemma va_transform_InrD:
  assumes "va_transform cols out df = Inr d"
  shows "out \<notin> set (columns df) \<and> schema d = schema df @ [(out, ''vector'')] \<and> extends df d"
  using assms
  by (auto simp: va_transform_def va_check_def extends_append_col split: sum.splits if_splits)

lemma select_encoded_DoneD:
  assumes "select_encoded t s = Done s'"
  shows "\<exists>fs tr te. factors s = Inr fs
           \<and> select_to_model (train_df s) (if t \<in> set fs then t @ indexed_suffix s else t) = Inr tr
           \<and> select_to_model (test_df s) (if t \<in> set fs then t @ indexed_suffix s else t) = Inr te
           \<and> s' = s\<lparr>train_encoded_df := Some tr, test_encoded_df := Some te\<rparr>"
  using assms
  by (auto simp: select_encoded_def Let_def split: sum.splits)

lemma mapE_total: "mapE (\<lambda>x. Inr (f x)) xs = Inr (map f xs)"
  by (induction xs) simp_all

lemma select_to_model_label:
  assumes "select_to_model df target = Inr e" and "target \<noteq> ''features''"
  shows "columns e = [''label'', ''features'']"
    and "rows e = Inr rs \<Longrightarrow> column_of ''label'' e = column_of target df"
proof -
  from assms(1) obtain i j where i: "resolve df target = Inr i" and j: "resolve df ''features'' = Inr j"
    and e: "e = with_column_renamed target ''label''
                  \<lparr>schema = [schema df ! i, schema df ! j],
                   rows = map_rows (\<lambda>r. Inr [r ! i, r ! j]) (rows df)\<rparr>"
    by (auto simp: select_to_model_def select2_def split: sum.splits)
  from resolve_InrD[OF i] resolve_InrD[OF j]
  have n: "fst (schema df ! i) = target" "fst (schema df ! j) = ''features''" by simp_all
  show c: "columns e = [''label'', ''features'']"
    using n assms(2) by (simp add: e with_column_renamed_def columns_def split_def)
  assume r: "rows e = Inr rs"
  then obtain rs0 where rs0: "rows df = Inr rs0" and rs: "rs = map (\<lambda>r. [r ! i, r ! j]) rs0"
    by (cases "rows df") (auto simp: e with_column_renamed_def map_rows_def mapE_total)
  have "resolve e ''label'' = Inr 0"
    by (simp add: resolve_def c)
  then show "column_of ''label'' e = column_of target df"
    by (simp add: column_of_def r i rs0 rs comp_def)
qed

lemma select_to_model_rows:
  "select_to_model df target = Inr e \<Longrightarrow> rows e = Inr rs \<Longrightarrow> \<exists>rs0. rows df = Inr rs0"
  by (cases "rows df")
     (auto simp: select_to_model_def select2_def with_column_renamed_def map_rows_def split: sum.splits)

lemma cols_of_types_append:
  "cols_of_types types (df\<lparr>schema := xs @ ys\<rparr>) =
   cols_of_types types (df\<lparr>schema := xs\<rparr>) @ cols_of_types types (df\<lparr>schema := ys\<rparr>)"
  by (simp add: cols_of_types_def dtypes_def)

lemma cols_of_types_schema: "schema df = schema df' \<Longrightarrow> cols_of_types types df = cols_of_types types df'"
  by (simp add: cols_of_types_def dtypes_def)

lemma string_cols_append:
  assumes "schema d = schema df @ new" and "\<forall>(n, ty) \<in> set new. ty \<noteq> ''string''"
  shows "cols_of_types [''string''] d = cols_of_types [''string''] df"
proof -
  have "filter (\<lambda>(col, data_type). data_type \<in> set [''string'']) new = []"
    using assms(2) by (auto simp: filter_empty_conv)
  then show ?thesis by (simp add: cols_of_types_def dtypes_def assms(1))
qed

lemma prepare_to_model_prepared:
  assumes c: "consistent s" and d: "prepare_to_model t ts s = Done s'"
    and col: "t \<in> set (columns (train_df s))"
  shows "\<exists>fs tr1 te1 ms tr2 te2 etr ete.
           factors s = Inr fs
         \<and> train_encoded_df s' = Some etr \<and> test_encoded_df s' = Some ete
         \<and> prepared t ts fs (indexed_suffix s) tr1 ms (train_df s) tr1 tr2 (train_df s') etr
         \<and> prepared t ts fs (indexed_suffix s) tr1 ms (test_df s) te1 te2 (test_df s') ete"
proof -
  from prepare_to_model_DoneD[OF d] obtain fs s1 fs1 s2 cs s3 as s4 where
    fs: "factors s = Inr fs" and st: "strip_columns fs ts s = Done s1"
    and fs1: "factors s1 = Inr fs1" and si: "string_index fs1 (indexed_suffix s1) s1 = Done s2"
    and cs: "one_hot_encode_columns t s2 = Inr cs" and oh: "one_hot_encode cs (one_hot_suffix s2) s2 = Done s3"
    and as: "columns_to_assemble t s3 = Inr as" and af: "assemble_features as ''features'' s3 = Done s4"
    and se: "select_encoded t s4 = Done s'"
    by blast
  from c have w: "wf_df (train_df s)" "wf_df (test_df s)" and ss: "same_schema s"
    by (simp_all add: consistent_def)
  have fse: "fs = cols_of_types [''string''] (train_df s)"
    using fs same_schema_factors[OF ss] by simp
  \<comment> \<open>strip\<close>
  from strip_columns_cases[OF w fs, of fs ts] st obtain tr1 te1 where
    s1: "s1 = s\<lparr>train_df := tr1, test_df := te1\<rparr>"
    and f1: "stripped_frame ts fs (train_df s) tr1" "stripped_frame ts fs (test_df s) te1"
    by auto
  have w1: "wf_df tr1" "wf_df te1" using w f1 by (auto intro: stripped_frame_wf)
  have sch1: "schema tr1 = schema (train_df s)" "schema te1 = schema (test_df s)"
    using f1 by (simp_all add: stripped_frame_def)
  have c1: "consistent s1" using strip_columns_inv[OF c, of fs ts] st by simp
  have fs1e: "fs1 = fs"
  proof -
    from c1 have "same_schema s1" by (simp add: consistent_def)
    from same_schema_factors[OF this] fs1 have "fs1 = cols_of_types [''string''] tr1" by (simp add: s1)
    also have "\<dots> = cols_of_types [''string''] (train_df s)" using sch1 by (intro cols_of_types_schema)
    finally show ?thesis by (simp add: fse)
  qed
  \<comment> \<open>index\<close>
  from string_index_DoneD[OF si] obtain ms tr2 te2 where
    pf: "pipeline_fit (map (\<lambda>factor. (factor, factor @ indexed_suffix s)) fs) tr1 = Inr ms"
    and p2: "pipeline_transform ms tr1 = Inr tr2" "pipeline_transform ms te1 = Inr te2"
    and s2: "s2 = s1\<lparr>train_df := tr2, test_df := te2\<rparr>"
    by (auto simp: s1 fs1e)
  have w2: "wf_df tr2" "wf_df te2" using w1 p2 by (auto intro: pipeline_transform_wf)
  have c2: "consistent s2" using string_index_inv[OF c1, of fs1 "indexed_suffix s1"] si by simp
  have sch2: "schema tr2 = schema tr1 @ map (\<lambda>(inp, out, labels). (out, ''double'')) ms"
       "schema te2 = schema te1 @ map (\<lambda>(inp, out, labels). (out, ''double'')) ms"
    using p2 by (simp_all add: pipeline_transform_schema_eq)
  \<comment> \<open>encode\<close>
  from one_hot_encode_DoneD[OF oh] obtain tr3 te3 where
    s3: "s3 = s2\<lparr>train_df := tr3, test_df := te3\<rparr>"
    and sch3: "schema tr3 = schema tr2 @ map (\<lambda>col. (col @ one_hot_suffix s2, ''vector'')) cs"
              "schema te3 = schema te2 @ map (\<lambda>col. (col @ one_hot_suffix s2, ''vector'')) cs"
    and t3: "\<exists>sizes. ohe_transform cs (map (\<lambda>col. col @ one_hot_suffix s2) cs) sizes tr2 = Inr tr3
                    \<and> ohe_transform cs (map (\<lambda>col. col @ one_hot_suffix s2) cs) sizes te2 = Inr te3"
    by (auto simp: s2)
  from t3 obtain sizes where
    o3: "ohe_transform cs (map (\<lambda>col. col @ one_hot_suffix s2) cs) sizes tr2 = Inr tr3"
        "ohe_transform cs (map (\<lambda>col. col @ one_hot_suffix s2) cs) sizes te2 = Inr te3"
    by auto
  have e3: "extends tr2 tr3" "extends te2 te3"
    using transform_extends[of "OneHotEncoderModel cs (map (\<lambda>col. col @ one_hot_suffix s2) cs) sizes" tr2 tr3]
      transform_extends[of "OneHotEncoderModel cs (map (\<lambda>col. col @ one_hot_suffix s2) cs) sizes" te2 te3]
      o3 by simp_all
  have c3: "consistent s3" using one_hot_encode_inv[OF c2, of cs "one_hot_suffix s2"] oh by simp
  \<comment> \<open>assemble\<close>
  from assemble_features_DoneD[OF af] obtain tr4 te4 where
    v4: "va_transform as ''features'' tr3 = Inr tr4" "va_transform as ''features'' te3 = Inr te4"
    and s4: "s4 = s3\<lparr>train_df := tr4, test_df := te4\<rparr>"
    by (auto simp: s3)
  note V4 = va_transform_InrD[OF v4(1)] va_transform_InrD[OF v4(2)]
  have c4: "consistent s4" using assemble_features_inv[OF c3, of as "''features''"] af by simp
  then have w4: "wf_df tr4" "wf_df te4" and ss4: "same_schema s4" by (simp_all add: consistent_def s4)
  have e4: "extends tr2 tr4" "extends te2 te4"
    using e3 V4 by (auto intro: extends_trans)
  \<comment> \<open>select\<close>
  have fld: "indexed_suffix s4 = indexed_suffix s" "train_df s4 = tr4" "test_df s4 = te4"
    by (simp_all add: s4 s3 s2 s1)
  from select_encoded_DoneD[OF se] obtain fs4 etr ete where
    fs4: "factors s4 = Inr fs4"
    and sel0: "select_to_model (train_df s4) (if t \<in> set fs4 then t @ indexed_suffix s4 else t) = Inr etr"
             "select_to_model (test_df s4) (if t \<in> set fs4 then t @ indexed_suffix s4 else t) = Inr ete"
    and s': "s' = s4\<lparr>train_encoded_df := Some etr, test_encoded_df := Some ete\<rparr>"
    by blast
  have sel: "select_to_model tr4 (if t \<in> set fs4 then t @ indexed_suffix s else t) = Inr etr"
            "select_to_model te4 (if t \<in> set fs4 then t @ indexed_suffix s else t) = Inr ete"
    using sel0 unfolding fld by simp_all
  have fs4e: "fs4 = fs"
  proof -
    have "schema tr4 = schema tr1 @ (map (\<lambda>(inp, out, labels). (out, ''double'')) ms
              @ map (\<lambda>col. (col @ one_hot_suffix s2, ''vector'')) cs @ [(''features'', ''vector'')])"
      using V4(1) sch3(1) sch2(1) by simp
    then have "cols_of_types [''string''] tr4 = cols_of_types [''string''] tr1"
      by (rule string_cols_append) auto
    also have "\<dots> = cols_of_types [''string''] (train_df s)" using sch1 by (intro cols_of_types_schema)
    finally show ?thesis using fs4 same_schema_factors[OF ss4] by (simp add: s4 fse)
  qed
  let ?target = "if t \<in> set fs then t @ indexed_suffix s else t"
  \<comment> \<open>the label column is a column of the indexed frame, and is not the features column\<close>
  from sel(1) have "?target \<in> set (columns tr4)"
    by (auto simp: fs4e select_to_model_def select2_def split: sum.splits dest!: resolve_InrD)
  have in2_tr: "?target \<in> set (columns tr2)"
  proof (cases "t \<in> set fs")
    case True
    from w1(1) have "distinct (columns tr1)" by (rule wf_distinct)
    moreover from True have "(t, ''string'') \<in> set (schema tr1)"
      using factors_mem(1)[OF fs] sch1 by simp
    then have "t \<in> set (columns tr1)" by (force simp: columns_def)
    ultimately obtain i where i: "resolve tr1 t = Inr i" using resolve_distinct by blast
    from True have "(t, t @ indexed_suffix s) \<in> set (map (\<lambda>factor. (factor, factor @ indexed_suffix s)) fs)"
      by auto
    from pipeline_fit_labels[OF w1(1) pf this i] obtain labels where
      "(t, t @ indexed_suffix s, labels) \<in> set ms" by blast
    then have "t @ indexed_suffix s \<in> set (columns tr2)"
      by (force simp: columns_def sch2)
    with True show ?thesis by simp
  next
    case False
    with col have "t \<in> set (columns tr1)" by (simp add: columns_def sch1)
    then show ?thesis using False by (simp add: columns_def sch2)
  qed
  have in2_te: "?target \<in> set (columns te2)"
    using in2_tr ss sch1 sch2 by (simp add: columns_def same_schema_def)
  have nf: "?target \<noteq> ''features''"
  proof
    assume "?target = ''features''"
    with in2_tr have "''features'' \<in> set (columns tr3)" by (simp add: columns_def sch3)
    with V4(1) show False by simp
  qed
  have "prepared t ts fs (indexed_suffix s) tr1 ms (train_df s) tr1 tr2 tr4 etr"
    unfolding prepared_def using w w1 w2 w4 f1 pf p2 e4 in2_tr nf sel by (simp add: fs4e)
  moreover have "prepared t ts fs (indexed_suffix s) tr1 ms (test_df s) te1 te2 te4 ete"
    unfolding prepared_def using w w1 w2 w4 f1 pf p2 e4 in2_te nf sel by (simp add: fs4e)
  ultimately show ?thesis using fs by (auto simp: s' s4 intro!: exI)
qed

lemma prepared_label_other:
  assumes P: "prepared t ts fs sfx tr1 ms df d1 d2 d4 e" and tf: "t \<notin> set fs"
    and col: "t \<in> set (columns df)"
  shows "columns e = [''label'', ''features'']"
    and "rows e = Inr rs \<Longrightarrow> column_of ''label'' e = column_of t df"
proof -
  from P tf have w: "wf_df df" "wf_df d1" "wf_df d2" "wf_df d4"
    and f1: "stripped_frame ts fs df d1" and p2: "pipeline_transform ms d1 = Inr d2"
    and e4: "extends d2 d4" and nf: "t \<noteq> ''features''" and sel: "select_to_model d4 t = Inr e"
    by (simp_all add: prepared_def)
  show "columns e = [''label'', ''features'']" using sel nf by (rule select_to_model_label)
  assume r: "rows e = Inr rs"
  from select_to_model_rows[OF sel r] obtain rs4 where rs4: "rows d4 = Inr rs4" by blast
  from wf_distinct[OF w(1)] col obtain i where i: "resolve df t = Inr i"
    using resolve_distinct by blast
  then have i1: "resolve d1 t = Inr i" by (simp add: stripped_frame_resolve[OF f1])
  have e14: "extends d1 d4" using pipeline_transform_extends[OF p2] e4 by (rule extends_trans)
  from extends_rows_Inr[OF e14 rs4] obtain rs1 where rs1: "rows d1 = Inr rs1" by blast
  have "column_of ''label'' e = column_of t d4" using sel nf r by (rule select_to_model_label)
  also have "\<dots> = column_of t d1" using e14 w(2,4) i1 rs4 by (rule extends_column_of)
  also have "\<dots> = column_of t df" using f1 w(1) i tf rs1 by (rule stripped_frame_column_other)
  finally show "column_of ''label'' e = column_of t df" .
qed

lemma prepared_label_factor:
  assumes P: "prepared t ts fs sfx tr1 ms df d1 d2 d4 e" and tf: "t \<in> set fs"
    and w1: "wf_df tr1" and r1: "resolve tr1 t = Inr i1" and rd: "resolve df t = Inr i"
    and r: "rows e = Inr rs"
  shows "\<exists>vs1 ws. column_of t tr1 = Inr vs1 \<and> column_of t df = Inr ws
           \<and> column_of ''label'' e = mapE (si_code (si_labels vs1)) (map (strip_val ts) ws)"
proof -
  from P tf have w: "wf_df df" "wf_df d1" "wf_df d2" "wf_df d4"
    and f1: "stripped_frame ts fs df d1"
    and pf: "pipeline_fit (map (\<lambda>factor. (factor, factor @ sfx)) fs) tr1 = Inr ms"
    and p2: "pipeline_transform ms d1 = Inr d2"
    and e4: "extends d2 d4" and in2: "t @ sfx \<in> set (columns d2)"
    and nf: "t @ sfx \<noteq> ''features''" and sel: "select_to_model d4 (t @ sfx) = Inr e"
    by (simp_all add: prepared_def)
  from tf have mem: "(t, t @ sfx) \<in> set (map (\<lambda>factor. (factor, factor @ sfx)) fs)" by auto
  from pipeline_fit_labels[OF w1 pf mem r1] obtain labels vs1 where
    l: "(t, t @ sfx, labels) \<in> set ms" "column_of t tr1 = Inr vs1" "labels = si_labels vs1"
    by blast
  from select_to_model_rows[OF sel r] obtain rs4 where rs4: "rows d4 = Inr rs4" by blast
  from extends_rows_Inr[OF e4 rs4] obtain rs2 where rs2: "rows d2 = Inr rs2" by blast
  from extends_rows_Inr[OF pipeline_transform_extends[OF p2] rs2] obtain rs1 where
    rs1: "rows d1 = Inr rs1" by blast
  have id1: "resolve d1 t = Inr i" using rd by (simp add: stripped_frame_resolve[OF f1])
  from pipeline_transform_codes[OF w(2) p2 l(1) id1 rs2] obtain vs where
    vs: "column_of t d1 = Inr vs" "column_of (t @ sfx) d2 = mapE (si_code labels) vs" by blast
  from stripped_frame_column_listed[OF f1 w(1) rd tf rs1] obtain ws where
    ws: "column_of t df = Inr ws" "column_of t d1 = Inr (map (strip_val ts) ws)" by blast
  from wf_distinct[OF w(3)] in2 obtain k where k: "resolve d2 (t @ sfx) = Inr k"
    using resolve_distinct by blast
  have "column_of ''label'' e = column_of (t @ sfx) d4" using sel nf r by (rule select_to_model_label)
  also have "\<dots> = column_of (t @ sfx) d2" using e4 w(3,4) k rs4 by (rule extends_column_of)
  also have "\<dots> = mapE (si_code (si_labels vs1)) (map (strip_val ts) ws)"
    using vs ws l(3) by simp
  finally show ?thesis using l(2) ws(1) by blast
qed

text \<open>
  C1: when the target is a numeric column and \<^verbatim>\<open>prepare_to_model\<close> returns, both encoded
  frames have exactly the two columns \<^verbatim>\<open>label\<close> and \<^verbatim>\<open>features\<close>, and the label cells,
  whenever the rows of the encoded frame can be computed, are the cells of the target
  column of the frame the instance held at the call, row by row.
\<close>

theorem prepare_to_model_numeric_target:
  assumes "consistent s" and "numeric_columns s = Inr ns" and "target_col \<in> set ns"
    and "prepare_to_model target_col to_strip s = Done s'"
  shows "\<exists>tr te. train_encoded_df s' = Some tr \<and> test_encoded_df s' = Some te
           \<and> columns tr = [''label'', ''features''] \<and> columns te = [''label'', ''features'']
           \<and> (\<forall>rs. rows tr = Inr rs \<longrightarrow> column_of ''label'' tr = column_of target_col (train_df s))
           \<and> (\<forall>rs. rows te = Inr rs \<longrightarrow> column_of ''label'' te = column_of target_col (test_df s))"
proof -
  from assms(1) have ss: "same_schema s" and w: "wf_df (train_df s)" by (simp_all add: consistent_def)
  from assms(2) same_schema_numeric[OF ss] have ns: "ns = cols_of_types [''double'', ''int''] (train_df s)"
    by simp
  with assms(3) obtain ty where ty: "(target_col, ty) \<in> set (schema (train_df s))" "ty \<noteq> ''string''"
    by (auto simp: cols_of_types_mem)
  then have col: "target_col \<in> set (columns (train_df s))" by (force simp: columns_def)
  then have col': "target_col \<in> set (columns (test_df s))" using ss by (simp add: columns_def same_schema_def)
  from prepare_to_model_prepared[OF assms(1,4) col] obtain fs tr1 te1 ms tr2 te2 etr ete where
    fs: "factors s = Inr fs"
    and enc: "train_encoded_df s' = Some etr" "test_encoded_df s' = Some ete"
    and P: "prepared target_col to_strip fs (indexed_suffix s) tr1 ms (train_df s) tr1 tr2 (train_df s') etr"
           "prepared target_col to_strip fs (indexed_suffix s) tr1 ms (test_df s) te1 te2 (test_df s') ete"
    by blast
  have tf: "target_col \<notin> set fs"
  proof
    assume "target_col \<in> set fs"
    then have "(target_col, ''string'') \<in> set (schema (train_df s))" using factors_mem(1)[OF fs] by simp
    with ty distinct_fst_unique[of "schema (train_df s)" target_col ty "''string''"] wf_distinct[OF w]
    show False by (simp add: columns_def)
  qed
  note A = prepared_label_other[OF P(1) tf col] and B = prepared_label_other[OF P(2) tf col']
  show ?thesis
    using enc A B by (intro exI[of _ etr] exI[of _ ete]) blast
qed

text \<open>
  C2: when the target is a factor and \<^verbatim>\<open>prepare_to_model\<close> returns, the encoded frames are
  the selection of the column named by the target and the indexed suffix (and of the
  features), under the names \<^verbatim>\<open>label\<close> and \<^verbatim>\<open>features\<close>; the label cells, whenever the rows
  of the encoded frame can be computed, are the codes of the stripped target cells of that
  frame under the indexer fitted on the stripped target cells of the train frame: numbers,
  not the strings.
\<close>

theorem prepare_to_model_factor_target:
  assumes "consistent s" and "factors s = Inr fs" and "target_col \<in> set fs"
    and "prepare_to_model target_col to_strip s = Done s'"
  shows "\<exists>tr te vs.
             train_encoded_df s' = Some tr \<and> test_encoded_df s' = Some te
           \<and> select_to_model (train_df s') (target_col @ indexed_suffix s) = Inr tr
           \<and> select_to_model (test_df s') (target_col @ indexed_suffix s) = Inr te
           \<and> columns tr = [''label'', ''features''] \<and> columns te = [''label'', ''features'']
           \<and> column_of target_col (train_df s) = Inr vs
           \<and> (\<forall>rs. rows tr = Inr rs \<longrightarrow>
                 column_of ''label'' tr
                   = mapE (si_code (si_labels (map (strip_val to_strip) vs))) (map (strip_val to_strip) vs))
           \<and> (\<forall>rs. rows te = Inr rs \<longrightarrow>
                 (\<exists>ws. column_of target_col (test_df s) = Inr ws
                     \<and> column_of ''label'' te
                       = mapE (si_code (si_labels (map (strip_val to_strip) vs))) (map (strip_val to_strip) ws)))"
proof -
  let ?sfx = "indexed_suffix s"
  from assms(1) have ss: "same_schema s" and w: "wf_df (train_df s)" "wf_df (test_df s)"
    by (simp_all add: consistent_def)
  from assms(2,3) have str: "(target_col, ''string'') \<in> set (schema (train_df s))"
    "(target_col, ''string'') \<in> set (schema (test_df s))"
    using factors_mem by simp_all
  then have col: "target_col \<in> set (columns (train_df s))" "target_col \<in> set (columns (test_df s))"
    by (force simp: columns_def)+
  from prepare_to_model_prepared[OF assms(1,4) col(1)] assms(2) obtain tr1 te1 ms tr2 te2 etr ete where
    enc: "train_encoded_df s' = Some etr" "test_encoded_df s' = Some ete"
    and P: "prepared target_col to_strip fs ?sfx tr1 ms (train_df s) tr1 tr2 (train_df s') etr"
           "prepared target_col to_strip fs ?sfx tr1 ms (test_df s) te1 te2 (test_df s') ete"
    by auto
  from P(1) assms(3) have w1: "wf_df tr1" and f1: "stripped_frame to_strip fs (train_df s) tr1"
    and pf: "pipeline_fit (map (\<lambda>factor. (factor, factor @ ?sfx)) fs) tr1 = Inr ms"
    and nf: "target_col @ ?sfx \<noteq> ''features''"
    and sel1: "select_to_model (train_df s') (target_col @ ?sfx) = Inr etr"
    by (simp_all add: prepared_def)
  from P(2) assms(3) have sel2: "select_to_model (test_df s') (target_col @ ?sfx) = Inr ete"
    by (simp add: prepared_def)
  from wf_distinct[OF w(1)] col(1) obtain i where i: "resolve (train_df s) target_col = Inr i"
    using resolve_distinct by blast
  from wf_distinct[OF w(2)] col(2) obtain i' where i': "resolve (test_df s) target_col = Inr i'"
    using resolve_distinct by blast
  have i1: "resolve tr1 target_col = Inr i" using i by (simp add: stripped_frame_resolve[OF f1])
  \<comment> \<open>fitting has run the plan of the stripped train frame\<close>
  from assms(3) have mem: "(target_col, target_col @ ?sfx) \<in> set (map (\<lambda>factor. (factor, factor @ ?sfx)) fs)"
    by auto
  from pipeline_fit_labels[OF w1 pf mem i1] obtain vs1 where vs1: "column_of target_col tr1 = Inr vs1"
    by blast
  from column_of_InrD[OF vs1] obtain rs1 where rs1: "rows tr1 = Inr rs1" by blast
  from stripped_frame_column_listed[OF f1 w(1) i assms(3) rs1] obtain vs where
    vs: "column_of target_col (train_df s) = Inr vs" "column_of target_col tr1 = Inr (map (strip_val to_strip) vs)"
    by blast
  with vs1 have vs1e: "vs1 = map (strip_val to_strip) vs" by simp
  have A: "column_of ''label'' etr
             = mapE (si_code (si_labels (map (strip_val to_strip) vs))) (map (strip_val to_strip) vs)"
    if "rows etr = Inr rs" for rs
    using prepared_label_factor[OF P(1) assms(3) w1 i1 i that] vs vs1 by auto
  have B: "\<exists>ws. column_of target_col (test_df s) = Inr ws
             \<and> column_of ''label'' ete
               = mapE (si_code (si_labels (map (strip_val to_strip) vs))) (map (strip_val to_strip) ws)"
    if "rows ete = Inr rs" for rs
    using prepared_label_factor[OF P(2) assms(3) w1 i1 i' that] vs1 vs1e by auto
  have C: "columns etr = [''label'', ''features'']" "columns ete = [''label'', ''features'']"
    using sel1 sel2 nf by (auto intro: select_to_model_label)
  show ?thesis
    using enc sel1 sel2 C vs(1) A B
    by (intro exI[of _ etr] exI[of _ ete] exI[of _ vs]) blast
qed

lemma ex_consistent: "consistent ex_state"
  by (simp add: consistent_def same_schema_def wf_df_def ex_state_def ex_train_def ex_test_def columns_def)

theorem prepare_to_model_numeric_target_witness:
  "\<exists>tr te. train_encoded_df (state_of (prepare_to_model ''price'' '' '' ex_state)) = Some tr
       \<and> test_encoded_df (state_of (prepare_to_model ''price'' '' '' ex_state)) = Some te
       \<and> columns tr = [''label'', ''features''] \<and> columns te = [''label'', ''features'']
       \<and> rows tr = Inr [[Dbl 10, Vec [1, 1]], [Dbl 20, Vec [2, 0]], [Dbl 30, Vec [3, 1]]]
       \<and> rows te = Inr [[Dbl 50, Vec [5, 0]], [Dbl 20, Vec [2, 1]]]
       \<and> column_of ''label'' tr = column_of ''price'' (train_df ex_state)
       \<and> column_of ''label'' te = column_of ''price'' (test_df ex_state)
       \<and> column_of ''price'' (train_df ex_state) = Inr [Dbl 10, Dbl 20, Dbl 30]
       \<and> column_of ''price'' (test_df ex_state) = Inr [Dbl 50, Dbl 20]"
proof -
  let ?s' = "state_of (prepare_to_model ''price'' '' '' ex_state)"
  have n: "numeric_columns ex_state = Inr [''size'', ''price'']"
    by (simp add: numeric_columns_def get_cols_by_types_def cols_of_types_def dtypes_def
          ex_state_def ex_train_def ex_test_def)
  have m: "''price'' \<in> set [''size'', ''price'']" by simp
  have d: "prepare_to_model ''price'' '' '' ex_state = Done ?s'" by code_simp
  from prepare_to_model_numeric_target[OF ex_consistent n m d] obtain tr te where
    e: "train_encoded_df ?s' = Some tr" "test_encoded_df ?s' = Some te"
    and c: "columns tr = [''label'', ''features'']" "columns te = [''label'', ''features'']"
    and l: "\<forall>rs. rows tr = Inr rs \<longrightarrow> column_of ''label'' tr = column_of ''price'' (train_df ex_state)"
           "\<forall>rs. rows te = Inr rs \<longrightarrow> column_of ''label'' te = column_of ''price'' (test_df ex_state)"
    by blast
  have "map_option rows (train_encoded_df ?s')
          = Some (Inr [[Dbl 10, Vec [1, 1]], [Dbl 20, Vec [2, 0]], [Dbl 30, Vec [3, 1]]])"
    "map_option rows (test_encoded_df ?s') = Some (Inr [[Dbl 50, Vec [5, 0]], [Dbl 20, Vec [2, 1]]])"
    by code_simp+
  with e have r: "rows tr = Inr [[Dbl 10, Vec [1, 1]], [Dbl 20, Vec [2, 0]], [Dbl 30, Vec [3, 1]]]"
    "rows te = Inr [[Dbl 50, Vec [5, 0]], [Dbl 20, Vec [2, 1]]]"
    by simp_all
  with l have l': "column_of ''label'' tr = column_of ''price'' (train_df ex_state)"
    "column_of ''label'' te = column_of ''price'' (test_df ex_state)"
    by blast+
  have v: "column_of ''price'' (train_df ex_state) = Inr [Dbl 10, Dbl 20, Dbl 30]"
    "column_of ''price'' (test_df ex_state) = Inr [Dbl 50, Dbl 20]"
    by code_simp+
  show ?thesis
    using e c r l' v by (intro exI[of _ tr] exI[of _ te]) simp
qed

theorem prepare_to_model_factor_target_witness:
  "\<exists>tr te. train_encoded_df (state_of (prepare_to_model ''color'' '' '' ex_state)) = Some tr
       \<and> test_encoded_df (state_of (prepare_to_model ''color'' '' '' ex_state)) = Some te
       \<and> select_to_model (train_df (state_of (prepare_to_model ''color'' '' '' ex_state))) ''color_cat'' = Inr tr
       \<and> select_to_model (test_df (state_of (prepare_to_model ''color'' '' '' ex_state))) ''color_cat'' = Inr te
       \<and> columns tr = [''label'', ''features''] \<and> columns te = [''label'', ''features'']
       \<and> column_of ''color'' (train_df ex_state) = Inr [Str '' red '', Str ''blue'', Str ''red'']
       \<and> column_of ''color'' (test_df ex_state) = Inr [Str ''blue '', Str '' red'']
       \<and> si_labels (map (strip_val '' '') [Str '' red '', Str ''blue'', Str ''red'']) = [''red'', ''blue'']
       \<and> column_of ''label'' tr = Inr [Dbl 0, Dbl 1, Dbl 0]
       \<and> column_of ''label'' te = Inr [Dbl 1, Dbl 0]"
proof -
  let ?s' = "state_of (prepare_to_model ''color'' '' '' ex_state)"
  have f: "factors ex_state = Inr [''color'']"
    by (simp add: factors_def get_cols_by_types_def cols_of_types_def dtypes_def
          ex_state_def ex_train_def ex_test_def)
  have m: "''color'' \<in> set [''color'']" by simp
  have d: "prepare_to_model ''color'' '' '' ex_state = Done ?s'" by code_simp
  have sfx: "indexed_suffix ex_state = ''_cat''" by (simp add: ex_state_def)
  from prepare_to_model_factor_target[OF ex_consistent f m d] obtain tr te vs where
    e: "train_encoded_df ?s' = Some tr" "test_encoded_df ?s' = Some te"
    and s: "select_to_model (train_df ?s') (''color'' @ indexed_suffix ex_state) = Inr tr"
           "select_to_model (test_df ?s') (''color'' @ indexed_suffix ex_state) = Inr te"
    and c: "columns tr = [''label'', ''features'']" "columns te = [''label'', ''features'']"
    and vs: "column_of ''color'' (train_df ex_state) = Inr vs"
    and l: "\<forall>rs. rows tr = Inr rs \<longrightarrow>
              column_of ''label'' tr = mapE (si_code (si_labels (map (strip_val '' '') vs))) (map (strip_val '' '') vs)"
           "\<forall>rs. rows te = Inr rs \<longrightarrow>
              (\<exists>ws. column_of ''color'' (test_df ex_state) = Inr ws
                 \<and> column_of ''label'' te = mapE (si_code (si_labels (map (strip_val '' '') vs))) (map (strip_val '' '') ws))"
    by blast
  have v: "column_of ''color'' (train_df ex_state) = Inr [Str '' red '', Str ''blue'', Str ''red'']"
    "column_of ''color'' (test_df ex_state) = Inr [Str ''blue '', Str '' red'']"
    by code_simp+
  with vs have vse: "vs = [Str '' red '', Str ''blue'', Str ''red'']" by simp
  have "map_option rows (train_encoded_df ?s')
          = Some (Inr [[Dbl 0, Vec [1, 10]], [Dbl 1, Vec [2, 20]], [Dbl 0, Vec [3, 30]]])"
    "map_option rows (test_encoded_df ?s') = Some (Inr [[Dbl 1, Vec [5, 50]], [Dbl 0, Vec [2, 20]]])"
    by code_simp+
  with e have r: "rows tr = Inr [[Dbl 0, Vec [1, 10]], [Dbl 1, Vec [2, 20]], [Dbl 0, Vec [3, 30]]]"
    "rows te = Inr [[Dbl 1, Vec [5, 50]], [Dbl 0, Vec [2, 20]]]"
    by simp_all
  have lab: "si_labels (map (strip_val '' '') [Str '' red '', Str ''blue'', Str ''red'']) = [''red'', ''blue'']"
    by code_simp
  have code: "mapE (si_code [''red'', ''blue'']) (map (strip_val '' '') [Str '' red '', Str ''blue'', Str ''red''])
                = Inr [Dbl 0, Dbl 1, Dbl 0]"
    "mapE (si_code [''red'', ''blue'']) (map (strip_val '' '') [Str ''blue '', Str '' red''])
                = Inr [Dbl 1, Dbl 0]"
    by code_simp+
  from l(1) r(1) have "column_of ''label'' tr = Inr [Dbl 0, Dbl 1, Dbl 0]"
    unfolding vse lab code by blast
  moreover from l(2) r(2) v(2) have "column_of ''label'' te = Inr [Dbl 1, Dbl 0]"
    unfolding vse lab using code(2) by auto
  ultimately show ?thesis
    using e s c v lab unfolding sfx by (intro exI[of _ tr] exI[of _ te]) simp
qed

subsection \<open>Exploration of factors\<close>

lemma explore_factors_example:
  "case explore_factors color_state of
     Inl e \<Rightarrow> False
   | Inr tables \<Rightarrow>
       tables ''color'' =
         Some \<lparr>pindex = [Str ''red'', Str ''blue'', Str ''green''],
               pcolumns = [''in_train'', ''in_test''],
               pdata = [[IntV 1, IntV 0], [IntV 1, IntV 1], [IntV 0, IntV 1]]\<rparr>"
  by code_simp

text \<open>
  C9 at an instance with a factor named \<^verbatim>\<open>count\<close>: the frame of counts has two columns of
  that name, the sort by \<^verbatim>\<open>count\<close> does not resolve, and \<^verbatim>\<open>explore_factors\<close> raises
  instead of returning a table.
\<close>

theorem explore_factors_count_column:
  "consistent count_state
   \<and> factors count_state = Inr [''count'']
   \<and> group_by_count ''count'' (test_df count_state)
       = Inr \<lparr>schema = [(''count'', ''string''), (''count'', ''bigint'')], rows = Inr [[Str ''few'', IntV 1]]\<rparr>
   \<and> order_by_desc ''count''
         \<lparr>schema = [(''count'', ''string''), (''count'', ''bigint'')], rows = Inr [[Str ''few'', IntV 1]]\<rparr>
       = Inl AnalysisException
   \<and> explore_factors count_state = Inl AnalysisException"
  by (simp add: consistent_def same_schema_def wf_df_def count_state_def columns_def factors_def
        get_cols_by_types_def cols_of_types_def dtypes_def explore_factors_def factor_table_def
        get_join_count_def value_counts_def group_by_count_def order_by_desc_def resolve_def)

subsection \<open>The assembled columns when no input name contains the two suffixes\<close>

lemma no_marker_after_indexing:
  assumes "\<not> sublist ''_cat_vec'' f"
  shows "\<not> sublist ''_cat_vec'' (f @ ''_cat'')"
proof
  assume "sublist ''_cat_vec'' (f @ ''_cat'')"
  then consider "sublist ''_cat_vec'' f" | "sublist ''_cat_vec'' ''_cat''"
    | xs1 xs2 where "''_cat_vec'' = xs1 @ xs2" "suffix xs1 f" "prefix xs2 ''_cat''"
    unfolding sublist_append by blast
  then show False
  proof cases
    case 1
    with assms show ?thesis by simp
  next
    case 2
    then have "length ''_cat_vec'' \<le> length ''_cat''" by (rule sublist_length_le)
    then show ?thesis by simp
  next
    case 3
    from 3(3) have "xs2 = [] \<or> xs2 = ''_'' \<or> xs2 = ''_c'' \<or> xs2 = ''_ca'' \<or> xs2 = ''_cat''"
      by (auto simp: prefix_Cons)
    moreover from 3(1) have "rev xs2 @ rev xs1 = rev ''_cat_vec''" by (metis rev_append)
    ultimately have "xs2 = []" by auto
    with 3(1,2) have "suffix ''_cat_vec'' f" by simp
    then have "sublist ''_cat_vec'' f" by (rule suffix_imp_sublist)
    with assms show ?thesis by simp
  qed
qed

lemma pipeline_fit_stages:
  "pipeline_fit stages df = Inr ms \<Longrightarrow> map (\<lambda>(inp, out, labels). (inp, out)) ms = stages"
proof (induction stages arbitrary: df ms)
  case Nil
  then show ?case by simp
next
  case (Cons st stages)
  obtain inp out where st: "st = (inp, out)" by (cases st)
  show ?case
  proof (cases "stages = []")
    case True
    with Cons.prems show ?thesis by (auto simp: st split: sum.splits)
  next
    case False
    with Cons.prems obtain labels d1 ms1 where
      "pipeline_fit stages d1 = Inr ms1" "ms = (inp, out, labels) # ms1"
      by (auto simp: st split: sum.splits)
    with Cons.IH[of d1 ms1] show ?thesis by (simp add: st)
  qed
qed

lemma cols_of_types_schema_append:
  assumes "schema d = xs @ ys"
  shows "cols_of_types types d =
         map fst (filter (\<lambda>(col, ty). ty \<in> set types) xs) @ map fst (filter (\<lambda>(col, ty). ty \<in> set types) ys)"
  by (simp add: cols_of_types_def dtypes_def assms)

lemma columns_to_assemble_clean_names:
  assumes c: "consistent s"
    and sfx: "indexed_suffix s = ''_cat''" "one_hot_suffix s = ''_vec''"
    and clean: "\<forall>c \<in> set (columns (train_df s)). \<not> sublist ''_cat_vec'' c"
    and fs: "factors s = Inr fs" and ns: "numeric_columns s = Inr ns"
    and st: "strip_columns fs ts s = Done s1"
    and fs1: "factors s1 = Inr fs1" and si: "string_index fs1 (indexed_suffix s1) s1 = Done s2"
    and cs: "one_hot_encode_columns t s2 = Inr cs"
    and oh: "one_hot_encode cs (one_hot_suffix s2) s2 = Done s3"
  shows "columns_to_assemble t s3 =
           Inr (filter (\<lambda>col. col \<noteq> t \<and> \<not> suffix ''_cat'' col) ns
                @ map (\<lambda>fac. fac @ ''_cat_vec'') (filter (\<lambda>fac. fac \<noteq> t) fs))"
proof -
  from c have w: "wf_df (train_df s)" "wf_df (test_df s)" and ss: "same_schema s"
    by (simp_all add: consistent_def)
  have fse: "fs = cols_of_types [''string''] (train_df s)"
    using fs same_schema_factors[OF ss] by simp
  have nse: "ns = cols_of_types [''double'', ''int''] (train_df s)"
    using ns same_schema_numeric[OF ss] by simp
  from strip_columns_cases[OF w fs, of fs ts] st obtain tr1 te1 where
    s1: "s1 = s\<lparr>train_df := tr1, test_df := te1\<rparr>"
    and f1: "stripped_frame ts fs (train_df s) tr1"
    by auto
  have sch1: "schema tr1 = schema (train_df s)" using f1 by (simp add: stripped_frame_def)
  have c1: "consistent s1" using strip_columns_inv[OF c, of fs ts] st by simp
  have fs1e: "fs1 = fs"
  proof -
    from c1 have "same_schema s1" by (simp add: consistent_def)
    from same_schema_factors[OF this] fs1 have "fs1 = cols_of_types [''string''] tr1" by (simp add: s1)
    also have "\<dots> = cols_of_types [''string''] (train_df s)" using sch1 by (intro cols_of_types_schema)
    finally show ?thesis by (simp add: fse)
  qed
  from string_index_DoneD[OF si] obtain ms tr2 te2 where
    pf: "pipeline_fit (map (\<lambda>factor. (factor, factor @ ''_cat'')) fs) tr1 = Inr ms"
    and p2: "pipeline_transform ms tr1 = Inr tr2"
    and s2: "s2 = s1\<lparr>train_df := tr2, test_df := te2\<rparr>"
    by (auto simp: s1 fs1e sfx)
  have c2: "consistent s2" using string_index_inv[OF c1, of fs1 "indexed_suffix s1"] si by simp
  have "map (\<lambda>(inp, out, labels). (out, ''double'')) ms
          = map (\<lambda>(inp, out). (out, ''double'')) (map (\<lambda>(inp, out, labels). (inp, out)) ms)"
    by (simp add: split_def comp_def)
  also have "\<dots> = map (\<lambda>fac. (fac @ ''_cat'', ''double'')) fs"
    unfolding pipeline_fit_stages[OF pf] by (simp add: comp_def)
  finally have sch2: "schema tr2 = schema (train_df s) @ map (\<lambda>fac. (fac @ ''_cat'', ''double'')) fs"
    using pipeline_transform_schema_eq[OF p2] sch1 by simp
  have fs2: "factors s2 = Inr fs"
  proof -
    from c2 have "same_schema s2" by (simp add: consistent_def)
    from same_schema_factors[OF this] have "factors s2 = Inr (cols_of_types [''string''] tr2)"
      by (simp add: s2)
    moreover have "cols_of_types [''string''] tr2 = cols_of_types [''string''] (train_df s)"
      using sch2 by (rule string_cols_append) auto
    ultimately show ?thesis by (simp add: fse)
  qed
  have cse: "cs = map (\<lambda>fac. fac @ ''_cat'') (filter (\<lambda>fac. fac \<noteq> t) fs)"
    using cs fs2 by (simp add: one_hot_encode_columns_def s2 s1 sfx)
  from one_hot_encode_DoneD[OF oh] obtain tr3 te3 where
    s3: "s3 = s2\<lparr>train_df := tr3, test_df := te3\<rparr>"
    and sch3': "schema tr3 = schema tr2 @ map (\<lambda>col. (col @ ''_vec'', ''vector'')) cs"
    by (auto simp: s2 s1 sfx)
  have c3: "consistent s3" using one_hot_encode_inv[OF c2, of cs "one_hot_suffix s2"] oh by simp
  let ?enc = "map (\<lambda>fac. fac @ ''_cat_vec'') (filter (\<lambda>fac. fac \<noteq> t) fs)"
  have sch3: "schema tr3 = (schema (train_df s) @ map (\<lambda>fac. (fac @ ''_cat'', ''double'')) fs)
                @ map (\<lambda>col. (col, ''vector'')) ?enc"
    using sch3' sch2 by (simp add: cse comp_def)
  \<comment> \<open>the numeric columns before assembly\<close>
  have n3: "numeric_columns s3 = Inr (ns @ map (\<lambda>fac. fac @ ''_cat'') fs)"
  proof -
    from c3 have "same_schema s3" by (simp add: consistent_def)
    from same_schema_numeric[OF this] have "numeric_columns s3 = Inr (cols_of_types [''double'', ''int''] tr3)"
      by (simp add: s3)
    moreover have "cols_of_types [''double'', ''int''] tr3 = ns @ map (\<lambda>fac. fac @ ''_cat'') fs"
      unfolding cols_of_types_schema_append[OF sch3] nse
      by (simp add: cols_of_types_def dtypes_def filter_map comp_def)
    ultimately show ?thesis by simp
  qed
  have i3: "indexed_suffix s3 = ''_cat''" "one_hot_suffix s3 = ''_vec''" "train_df s3 = tr3"
    by (simp_all add: s3 s2 s1 sfx)
  have num: "numeric_to_assemble t s3 = Inr (filter (\<lambda>col. col \<noteq> t \<and> \<not> suffix ''_cat'' col) ns)"
    by (simp add: numeric_to_assemble_def n3 i3 filter_map comp_def suffix_def)
  \<comment> \<open>the columns picked by name\<close>
  have a: "filter (\<lambda>(col, data_type). sublist ''_cat_vec'' col) (schema (train_df s)) = []"
    using clean by (auto simp: filter_empty_conv columns_def)
  have b: "filter (\<lambda>(col, data_type). sublist ''_cat_vec'' col) (map (\<lambda>fac. (fac @ ''_cat'', ''double'')) fs) = []"
  proof -
    have "\<not> sublist ''_cat_vec'' (fac @ ''_cat'')" if "fac \<in> set fs" for fac
    proof -
      from that have "fac \<in> set (columns (train_df s))"
        unfolding fse cols_of_types_def columns_def dtypes_def by auto
      with clean show ?thesis by (intro no_marker_after_indexing) blast
    qed
    then show ?thesis by (auto simp: filter_empty_conv)
  qed
  have d: "filter (\<lambda>(col, data_type). sublist ''_cat_vec'' col) (map (\<lambda>col. (col, ''vector'')) ?enc)
             = map (\<lambda>col. (col, ''vector'')) ?enc"
  proof -
    have "sublist ''_cat_vec'' (fac @ ''_cat_vec'')" for fac :: string
      by (rule sublist_append_leftI)
    then show ?thesis by (auto simp: filter_id_conv)
  qed
  have ohe: "one_hot_encoded s3 = ?enc"
    unfolding one_hot_encoded_def i3 dtypes_def sch3 filter_append d
    using a b by (simp add: comp_def)
  show ?thesis
    by (simp add: columns_to_assemble_def num ohe)
qed

end
